theory Spec2Isabelle
  imports Main "HOL-Library.Word"
begin

unbundle bit_operations_syntax

section \<open>Machine types, errors and memory\<close>

type_synonym u8 = "8 word"
type_synonym u32 = "32 word"
type_synonym u64 = "64 word"

text \<open>
  The C++ type \<open>int\<close> is modelled by \<open>int\<close>. Signed overflow is undefined behaviour
  in C++; the model evaluates every product or sum the source computes on \<open>int\<close> and
  yields the error \<open>Undefined\<close> as soon as one of them leaves the 32-bit range.
\<close>

definition INT_MAX :: int where
  "INT_MAX = 2147483647"

definition INT_MIN :: int where
  "INT_MIN = - 2147483648"

definition int_ok :: "int \<Rightarrow> bool" where
  "int_ok n \<longleftrightarrow> INT_MIN \<le> n \<and> n \<le> INT_MAX"

text \<open>The operator \<open>/\<close> on \<open>int\<close> truncates towards zero.\<close>

definition tdiv :: "int \<Rightarrow> int \<Rightarrow> int" where
  "tdiv a b = sgn a * sgn b * (\<bar>a\<bar> div \<bar>b\<bar>)"

text \<open>
  \<open>BadAlloc\<close> is \<open>std::bad_alloc\<close> thrown by \<open>new\<close>; \<open>RuntimeError\<close> is the
  \<open>std::runtime_error\<close> the decoders throw in its place; \<open>ProcessExit\<close> is libjpeg's
  standard error manager (installed by \<open>jpeg_std_error\<close>) ending the process on a fatal
  stream error; \<open>Undefined\<close> is undefined behaviour: signed overflow, or an access
  outside the allocated array (which includes every access through \<open>nullptr\<close>).
\<close>

datatype error = BadAlloc | RuntimeError | ProcessExit | Undefined

definition seq :: "error + 'a \<Rightarrow> ('a \<Rightarrow> error + 'b) \<Rightarrow> error + 'b" where
  "seq m f = (case m of Inl e \<Rightarrow> Inl e | Inr v \<Rightarrow> f v)"

text \<open>A \<open>for\<close> loop over the index list, threading the state and stopping at an error.\<close>

fun for_each :: "'i list \<Rightarrow> ('i \<Rightarrow> 's \<Rightarrow> error + 's) \<Rightarrow> 's \<Rightarrow> error + 's" where
  "for_each [] body s = Inr s"
| "for_each (i # is) body s = seq (body i s) (for_each is body)"

text \<open>Reading and writing an array element through a pointer at offset \<open>i\<close>.\<close>

definition load :: "'a list \<Rightarrow> int \<Rightarrow> error + 'a" where
  "load mem i = (if 0 \<le> i \<and> i < int (length mem) then Inr (mem ! nat i) else Inl Undefined)"

definition store :: "'a list \<Rightarrow> int \<Rightarrow> 'a \<Rightarrow> error + 'a list" where
  "store mem i v = (if 0 \<le> i \<and> i < int (length mem) then Inr (mem[nat i := v]) else Inl Undefined)"

text \<open>
  The allocator is a parameter: \<open>capacity\<close> is the largest number of pixels \<open>new\<close>
  grants, and \<open>garbage\<close> is the indeterminate content of fresh storage.
\<close>

record heap =
  capacity :: nat
  garbage :: "nat \<Rightarrow> u32"

section \<open>ImageBuffer\<close>

record ImageBuffer =
  width :: int
  height :: int
  frames :: int
  pixels :: "u32 list option"

text \<open>The constructor \<open>ImageBuffer::ImageBuffer(int frames)\<close>.\<close>

definition ImageBuffer_new :: "int \<Rightarrow> ImageBuffer" where
  "ImageBuffer_new n = \<lparr>width = 0, height = 0, frames = n, pixels = None\<rparr>"

definition Clear :: "int \<Rightarrow> ImageBuffer \<Rightarrow> ImageBuffer" where
  "Clear n b = b\<lparr>pixels := None, frames := n\<rparr>"

definition Allocate :: "heap \<Rightarrow> int \<Rightarrow> int \<Rightarrow> ImageBuffer \<Rightarrow> error + ImageBuffer" where
  "Allocate hp w h b =
    (if pixels b \<noteq> None \<or> w = 0 \<or> h = 0 \<or> frames b = 0 then Inr b
     else if \<not> int_ok (w * h) \<or> \<not> int_ok (w * h * frames b) then Inl Undefined
     else if w * h * frames b < 0 \<or> int (capacity hp) < w * h * frames b then Inl BadAlloc
     else Inr (b\<lparr>width := w, height := h,
                 pixels := Some (map (garbage hp) [0 ..< nat (w * h * frames b)])\<rparr>))"

definition Width :: "ImageBuffer \<Rightarrow> int" where
  "Width b = width b"

definition Height :: "ImageBuffer \<Rightarrow> int" where
  "Height b = height b"

definition Frames :: "ImageBuffer \<Rightarrow> int" where
  "Frames b = frames b"

definition Pixels :: "ImageBuffer \<Rightarrow> u32 list option" where
  "Pixels b = pixels b"

text \<open>The array behind \<open>pixels\<close>; no element can be accessed through \<open>nullptr\<close>.\<close>

definition storage :: "ImageBuffer \<Rightarrow> u32 list" where
  "storage b = (case pixels b of None \<Rightarrow> [] | Some ps \<Rightarrow> ps)"

text \<open>\<open>Begin(y, frame)\<close>, as the offset \<open>width * (y + height * frame)\<close> from \<open>pixels\<close>.\<close>

definition Begin :: "ImageBuffer \<Rightarrow> int \<Rightarrow> int \<Rightarrow> error + int" where
  "Begin b y frame =
    (if int_ok (height b * frame) \<and> int_ok (y + height b * frame)
        \<and> int_ok (width b * (y + height b * frame))
     then Inr (width b * (y + height b * frame)) else Inl Undefined)"

section \<open>ShrinkToHalfSize\<close>

text \<open>
  \<open>reinterpret_cast<unsigned char *>(pixels)\<close>: the bytes of the pixel array, in the
  order of a little-endian machine, and the pixels a byte array holds.
\<close>

definition bytes_of :: "u32 list \<Rightarrow> u8 list" where
  "bytes_of ps = concat (map (\<lambda>p. [ucast p, ucast (drop_bit 8 p), ucast (drop_bit 16 p),
     ucast (drop_bit 24 p)]) ps)"

fun pixels_of :: "u8 list \<Rightarrow> u32 list" where
  "pixels_of (b0 # b1 # b2 # b3 # bs) =
     (ucast b0 OR push_bit 8 (ucast b1) OR push_bit 16 (ucast b2) OR push_bit 24 (ucast b3))
       # pixels_of bs"
| "pixels_of bs = []"

text \<open>
  The assignment \<open>*out = (aIt[0] + bIt[0] + aIt[4] + bIt[4] + 2) / 4\<close>, computed on
  \<open>unsigned\<close>; the sum is at most 1022.
\<close>

definition shrink_channel :: "u8 list \<Rightarrow> int \<Rightarrow> int \<Rightarrow> error + u8" where
  "shrink_channel mem aIt bIt =
     seq (load mem aIt) (\<lambda>a0. seq (load mem bIt) (\<lambda>b0.
     seq (load mem (aIt + 4)) (\<lambda>a4. seq (load mem (bIt + 4)) (\<lambda>b4.
       Inr (of_nat ((unat a0 + unat b0 + unat a4 + unat b4 + 2) div 4))))))"

text \<open>
  One iteration of the loop over \<open>y\<close>. \<open>aIt\<close> starts at byte \<open>(4 * width) * (2 * y)\<close>
  and \<open>bIt\<close> at byte \<open>(4 * width) * (2 * y + 1)\<close>; both advance by one per channel and
  by four more per pixel, so they are 8 * x + channel bytes further at pixel \<open>x\<close>. The
  bytes stored through \<open>out\<close> are appended to the output written so far. The pixel loop
  ends when \<open>aIt\<close> meets \<open>aEnd = aIt + 4 * 2 * result.width\<close>, which a negative
  \<open>result.width\<close> never lets happen.
\<close>

definition shrink_row :: "u8 list \<Rightarrow> int \<Rightarrow> int \<Rightarrow> int \<Rightarrow> u8 list \<Rightarrow> error + u8 list" where
  "shrink_row mem w rw y out =
     (if \<not> (int_ok (4 * w) \<and> int_ok (2 * y + 1) \<and> int_ok ((4 * w) * (2 * y))
            \<and> int_ok ((4 * w) * (2 * y + 1)) \<and> int_ok (4 * 2 * rw)) \<or> rw < 0
      then Inl Undefined
      else for_each [0 ..< nat rw] (\<lambda>x. for_each [0 ..< 4] (\<lambda>channel out.
             seq (shrink_channel mem ((4 * w) * (2 * y) + 8 * int x + int channel)
                                     ((4 * w) * (2 * y + 1) + 8 * int x + int channel))
                 (\<lambda>v. Inr (out @ [v])))) out)"

definition ShrinkToHalfSize :: "heap \<Rightarrow> ImageBuffer \<Rightarrow> error + ImageBuffer" where
  "ShrinkToHalfSize hp b =
     seq (Allocate hp (tdiv (width b) 2) (tdiv (height b) 2) (ImageBuffer_new (frames b)))
       (\<lambda>result.
          if \<not> int_ok (height result * frames b) then Inl Undefined
          else seq (for_each [0 ..< nat (height result * frames b)]
                     (\<lambda>y. shrink_row (bytes_of (storage b)) (width b) (width result) (int y)) [])
            (\<lambda>out.
               if 4 * length (storage result) < length out then Inl Undefined
               else Inr (b\<lparr>width := width result, height := height result,
                           pixels := map_option
                             (\<lambda>g. pixels_of (out @ drop (length out) (bytes_of g)))
                             (pixels result)\<rparr>)))"

section \<open>Premultiply\<close>

text \<open>
  Modelled from the spec: the enumeration \<open>BlendingMode\<close> is declared outside this
  file; the spec lists a default (straight alpha) mode and the three modes the source
  names, \<open>PREMULTIPLIED_ALPHA\<close>, \<open>ADDITIVE\<close> and \<open>HALF_ADDITIVE\<close>.
\<close>

datatype BlendingMode = ALPHA | PREMULTIPLIED_ALPHA | ADDITIVE | HALF_ADDITIVE

text \<open>The body of the inner loop of \<open>Premultiply\<close>, on \<open>uint64_t\<close>.\<close>

definition premultiply_pixel :: "BlendingMode \<Rightarrow> u32 \<Rightarrow> u32" where
  "premultiply_pixel blend px =
    (let value = (ucast px :: u64);
         alpha = drop_bit 24 (value AND 0xFF000000);
         red = (((value AND 0xFF0000) * alpha) div 255) AND 0xFF0000;
         green = (((value AND 0xFF00) * alpha) div 255) AND 0xFF00;
         blue = (((value AND 0xFF) * alpha) div 255) AND 0xFF;
         value1 = red OR green OR blue;
         alpha1 = (if blend = HALF_ADDITIVE then drop_bit 2 alpha else alpha);
         value2 = (if blend \<noteq> ADDITIVE then value1 OR push_bit 24 alpha1 else value1)
     in ucast value2)"

text \<open>
  The loop over one row: \<open>it\<close> runs from the row's first pixel until it meets
  \<open>end = it + buffer.Width()\<close>, which a negative width never lets happen.
\<close>

definition Premultiply_row :: "BlendingMode \<Rightarrow> int \<Rightarrow> int \<Rightarrow> u32 list \<Rightarrow> error + u32 list" where
  "Premultiply_row blend w it mem =
     (if w < 0 then Inl Undefined
      else for_each [0 ..< nat w] (\<lambda>x mem.
             seq (load mem (it + int x)) (\<lambda>v. store mem (it + int x) (premultiply_pixel blend v)))
           mem)"

definition Premultiply :: "ImageBuffer \<Rightarrow> int \<Rightarrow> BlendingMode \<Rightarrow> error + ImageBuffer" where
  "Premultiply buffer frame blend =
     seq (for_each [0 ..< nat (Height buffer)]
            (\<lambda>y mem. seq (Begin buffer (int y) frame) (\<lambda>it. Premultiply_row blend (Width buffer) it mem))
            (storage buffer))
       (\<lambda>mem. Inr (buffer\<lparr>pixels := map_option (\<lambda>_. mem) (pixels buffer)\<rparr>))"

text \<open>The channels of a packed pixel: alpha in the top byte, then red, green, blue.\<close>

definition alpha_of :: "u32 \<Rightarrow> nat" where
  "alpha_of px = unat (drop_bit 24 px)"

definition red_of :: "u32 \<Rightarrow> nat" where
  "red_of px = unat (drop_bit 16 px AND 0xFF)"

definition green_of :: "u32 \<Rightarrow> nat" where
  "green_of px = unat (drop_bit 8 px AND 0xFF)"

definition blue_of :: "u32 \<Rightarrow> nat" where
  "blue_of px = unat (px AND 0xFF)"

section \<open>Read\<close>

text \<open>
  Modelled from the spec: \<open>ImageFileData\<close> is declared outside this file; the source
  reads its \<open>path\<close>, its \<open>extension\<close> and its \<open>blendingMode\<close>.
\<close>

record ImageFileData =
  path :: string
  extension :: string
  blendingMode :: BlendingMode

text \<open>
  What \<open>Files\<close> and libpng make of a path. \<open>PNG_Unreadable\<close>: \<open>Files::Open\<close> returns
  no stream, libpng cannot set up its structures, or \<open>png_read_info\<close> rejects the
  stream (the \<open>setjmp\<close> branch). \<open>PNG_Image w h px stop\<close>: the header gives width
  \<open>w\<close> and height \<open>h\<close>, the RGBA value of row \<open>y\<close>, column \<open>x\<close> is \<open>px y x\<close>, and
  \<open>png_read_image\<close> either completes (\<open>stop = None\<close>) or jumps to the \<open>setjmp\<close>
  branch after writing \<open>k\<close> rows (\<open>stop = Some k\<close>). The dimensions a header gives
  are unsigned; libpng and libjpeg keep them below \<open>INT_MAX\<close>, so the conversion to
  \<open>int\<close> does not change them.
\<close>

datatype png_file = PNG_Unreadable | PNG_Image nat nat "nat \<Rightarrow> nat \<Rightarrow> u32" "nat option"

text \<open>
  What \<open>Files\<close> and libjpeg make of a path. \<open>JPG_Empty\<close>: \<open>Files::Read\<close> returns the
  empty string. \<open>JPG_Malformed\<close>: libjpeg reports a fatal error, on which its standard
  error manager ends the process. \<open>JPG_Image w h px n\<close>: the header gives width \<open>w\<close>
  and height \<open>h\<close>, the RGBA value of row \<open>y\<close>, column \<open>x\<close> is \<open>px y x\<close>, and each
  call of \<open>jpeg_read_scanlines\<close> delivers \<open>n\<close> rows, but at least one and at most
  the number asked for.
\<close>

datatype jpg_file = JPG_Empty | JPG_Malformed | JPG_Image nat nat "nat \<Rightarrow> nat \<Rightarrow> u32" nat

record files =
  png_at :: "string \<Rightarrow> png_file"
  jpg_at :: "string \<Rightarrow> jpg_file"

definition PNG_EXTENSIONS :: "string set" where
  "PNG_EXTENSIONS = {''.png''}"

definition JPG_EXTENSIONS :: "string set" where
  "JPG_EXTENSIONS = {''.jpg'', ''.jpeg'', ''.jpe''}"

definition IMAGE_EXTENSIONS :: "string set" where
  "IMAGE_EXTENSIONS = PNG_EXTENSIONS \<union> JPG_EXTENSIONS"

definition ImageExtensions :: "string set" where
  "ImageExtensions = IMAGE_EXTENSIONS"

text \<open>The decoder writing row \<open>y\<close> of the image to the \<open>w\<close> pixels from offset \<open>it\<close>.\<close>

definition write_row :: "(nat \<Rightarrow> nat \<Rightarrow> u32) \<Rightarrow> nat \<Rightarrow> int \<Rightarrow> nat \<Rightarrow> u32 list \<Rightarrow> error + u32 list" where
  "write_row px w it y mem = for_each [0 ..< w] (\<lambda>x mem. store mem (it + int x) (px y x)) mem"

text \<open>The loop \<open>rows[y] = buffer.Begin(y, frame)\<close> over the \<open>height\<close> rows.\<close>

definition row_pointers :: "ImageBuffer \<Rightarrow> int \<Rightarrow> nat \<Rightarrow> error + int list" where
  "row_pointers buffer frame h =
     for_each [0 ..< h] (\<lambda>y rows. seq (Begin buffer (int y) frame) (\<lambda>it. Inr (rows @ [it]))) []"

text \<open>
  \<open>try { buffer.Allocate(width, height); } catch(const bad_alloc &) { ... throw
  runtime_error(message); }\<close>
\<close>

definition try_Allocate :: "heap \<Rightarrow> int \<Rightarrow> int \<Rightarrow> ImageBuffer \<Rightarrow> error + ImageBuffer" where
  "try_Allocate hp w h buffer =
     (case Allocate hp w h buffer of
        Inl BadAlloc \<Rightarrow> Inl RuntimeError
      | Inl e \<Rightarrow> Inl e
      | Inr buffer' \<Rightarrow> Inr buffer')"

definition ReadPNG :: "heap \<Rightarrow> png_file \<Rightarrow> ImageBuffer \<Rightarrow> int \<Rightarrow> error + bool \<times> ImageBuffer" where
  "ReadPNG hp file buffer frame =
     (case file of
        PNG_Unreadable \<Rightarrow> Inr (False, buffer)
      | PNG_Image w h px stop \<Rightarrow>
          seq (try_Allocate hp (int w) (int h) buffer) (\<lambda>buffer.
            if w = 0 \<or> h = 0 \<or> int w \<noteq> Width buffer \<or> int h \<noteq> Height buffer
            then Inr (False, buffer)
            else seq (row_pointers buffer frame h) (\<lambda>rows.
                 seq (for_each [0 ..< (case stop of None \<Rightarrow> h | Some k \<Rightarrow> min k h)]
                        (\<lambda>y. write_row px w (rows ! y) y) (storage buffer)) (\<lambda>mem.
                   Inr (stop = None, buffer\<lparr>pixels := map_option (\<lambda>_. mem) (pixels buffer)\<rparr>)))))"

text \<open>
  The loop \<open>while(height) height -= jpeg_read_scanlines(&cinfo, &rows.front() +
  cinfo.output_scanline, height)\<close>; \<open>scanline\<close> is \<open>cinfo.output_scanline\<close>.
\<close>

function read_scanlines ::
  "(nat \<Rightarrow> nat \<Rightarrow> u32) \<Rightarrow> nat \<Rightarrow> nat \<Rightarrow> int list \<Rightarrow> nat \<Rightarrow> nat \<Rightarrow> u32 list \<Rightarrow> error + u32 list" where
  "read_scanlines px w n rows scanline h mem =
     (if h = 0 then Inr mem
      else seq (for_each [scanline ..< scanline + max 1 (min n h)]
                  (\<lambda>y. write_row px w (rows ! y) y) mem)
             (read_scanlines px w n rows (scanline + max 1 (min n h)) (h - max 1 (min n h))))"
  by pat_completeness auto
termination
  by (relation "measure (\<lambda>(px, w, n, rows, scanline, h, mem). h)") auto

definition ReadJPG :: "heap \<Rightarrow> jpg_file \<Rightarrow> ImageBuffer \<Rightarrow> int \<Rightarrow> error + bool \<times> ImageBuffer" where
  "ReadJPG hp file buffer frame =
     (case file of
        JPG_Empty \<Rightarrow> Inr (False, buffer)
      | JPG_Malformed \<Rightarrow> Inl ProcessExit
      | JPG_Image w h px n \<Rightarrow>
          seq (try_Allocate hp (int w) (int h) buffer) (\<lambda>buffer.
            if w = 0 \<or> h = 0 \<or> int w \<noteq> Width buffer \<or> int h \<noteq> Height buffer
            then Inr (False, buffer)
            else seq (row_pointers buffer frame h) (\<lambda>rows.
                 seq (read_scanlines px w n rows 0 h (storage buffer)) (\<lambda>mem.
                   Inr (True, buffer\<lparr>pixels := map_option (\<lambda>_. mem) (pixels buffer)\<rparr>)))))"

text \<open>
  \<open>ImageBuffer::Read\<close>. The messages sent to \<open>Logger\<close> are not part of the buffer and
  are left out.
\<close>

definition Read :: "heap \<Rightarrow> files \<Rightarrow> ImageFileData \<Rightarrow> int \<Rightarrow> ImageBuffer \<Rightarrow> error + bool \<times> ImageBuffer" where
  "Read hp fs data frame this =
    (let isPNG = extension data \<in> PNG_EXTENSIONS;
         isJPG = extension data \<in> JPG_EXTENSIONS
     in if \<not> isPNG \<and> \<not> isJPG then Inr (False, this)
        else seq (if isPNG then ReadPNG hp (png_at fs (path data)) this frame else Inr (True, this))
          (\<lambda>(ok, this).
             if \<not> ok then Inr (False, this)
             else seq (if isJPG then ReadJPG hp (jpg_at fs (path data)) this frame else Inr (True, this))
               (\<lambda>(ok, this).
                  if \<not> ok then Inr (False, this)
                  else if blendingMode data \<noteq> PREMULTIPLIED_ALPHA
                          \<and> (isPNG \<or> (isJPG \<and> blendingMode data = ADDITIVE))
                  then seq (Premultiply this frame (blendingMode data)) (\<lambda>this. Inr (True, this))
                  else Inr (True, this))))"

section \<open>Notions used in the statements\<close>

text \<open>
  A buffer is allocated when it holds storage of positive dimensions whose size is the
  one \<open>Allocate\<close> asked for: \<open>width * height * frames\<close> pixels.
\<close>

definition allocated :: "ImageBuffer \<Rightarrow> bool" where
  "allocated b =
     (case pixels b of
        None \<Rightarrow> False
      | Some ps \<Rightarrow> 0 < width b \<and> 0 < height b \<and> 0 < frames b
                   \<and> int (length ps) = width b * height b * frames b)"

text \<open>The pixel of column \<open>x\<close> and row \<open>y\<close> of a frame: the element \<open>Begin(y, frame)[x]\<close>.\<close>

definition pixel_index :: "ImageBuffer \<Rightarrow> int \<Rightarrow> int \<Rightarrow> int \<Rightarrow> nat" where
  "pixel_index b x y frame = nat (width b * (y + height b * frame) + x)"

definition pixel_at :: "ImageBuffer \<Rightarrow> int \<Rightarrow> int \<Rightarrow> int \<Rightarrow> u32" where
  "pixel_at b x y frame = storage b ! pixel_index b x y frame"

text \<open>Channel \<open>c\<close> of that pixel: byte \<open>c\<close> of the four bytes the pixel occupies.\<close>

definition channel_at :: "ImageBuffer \<Rightarrow> int \<Rightarrow> int \<Rightarrow> int \<Rightarrow> nat \<Rightarrow> nat" where
  "channel_at b x y frame c = unat (bytes_of (storage b) ! (4 * pixel_index b x y frame + c))"

text \<open>Parts of a pixel widened to 64 bits, and four such parts packed into a pixel.\<close>

definition wide :: "u32 \<Rightarrow> nat \<Rightarrow> u64" where
  "wide px k = take_bit 8 (drop_bit k (ucast px))"

definition pack :: "u64 \<Rightarrow> u64 \<Rightarrow> u64 \<Rightarrow> u64 \<Rightarrow> u32" where
  "pack a r g b = ucast (push_bit 16 (take_bit 8 r) OR push_bit 8 (take_bit 8 g) OR take_bit 8 b
       OR push_bit 24 (take_bit 8 a))"

text \<open>
  The byte \<open>ShrinkToHalfSize\<close> stores for the iterators \<open>aIt\<close> and \<open>bIt\<close> when its
  four reads are in range, and the bytes one iteration of the loop over \<open>y\<close> stores.
\<close>

definition shrink_value :: "u8 list \<Rightarrow> int \<Rightarrow> int \<Rightarrow> u8" where
  "shrink_value mem aIt bIt =
     of_nat ((unat (mem ! nat aIt) + unat (mem ! nat bIt) + unat (mem ! nat (aIt + 4))
              + unat (mem ! nat (bIt + 4)) + 2) div 4)"

definition shrink_pixel_bytes :: "u8 list \<Rightarrow> int \<Rightarrow> int \<Rightarrow> nat \<Rightarrow> u8 list" where
  "shrink_pixel_bytes mem w y x =
     map (\<lambda>channel. shrink_value mem ((4 * w) * (2 * y) + 8 * int x + int channel)
                                     ((4 * w) * (2 * y + 1) + 8 * int x + int channel))
       [0 ..< 4]"

definition shrink_row_bytes :: "u8 list \<Rightarrow> int \<Rightarrow> int \<Rightarrow> int \<Rightarrow> u8 list" where
  "shrink_row_bytes mem w rw y = concat (map (shrink_pixel_bytes mem w y) [0 ..< nat rw])"

section \<open>Example data\<close>

definition example_heap :: heap where
  "example_heap = \<lparr>capacity = 64, garbage = (\<lambda>_. 0)\<rparr>"

definition example_pixel :: ImageBuffer where
  "example_pixel = \<lparr>width = 1, height = 1, frames = 1, pixels = Some [0x80FF8040]\<rparr>"

definition example_pair :: ImageBuffer where
  "example_pair = \<lparr>width = 2, height = 1, frames = 1, pixels = Some [0x80FF8040, 0xFF102030]\<rparr>"

definition example_2x2 :: ImageBuffer where
  "example_2x2 = \<lparr>width = 2, height = 2, frames = 1, pixels = Some [0, 0, 0, 0]\<rparr>"

definition example_1x4 :: ImageBuffer where
  "example_1x4 = \<lparr>width = 1, height = 4, frames = 1, pixels = Some [1, 2, 3, 4]\<rparr>"

definition example_opaque :: ImageBuffer where
  "example_opaque = \<lparr>width = 1, height = 1, frames = 1, pixels = Some [0xFF102030]\<rparr>"

definition example_quad :: ImageBuffer where
  "example_quad = \<lparr>width = 2, height = 2, frames = 1,
     pixels = Some [0x01020304, 0x05060708, 0x090A0B0C, 0x0D0E0F11]\<rparr>"

definition example_quad_half :: ImageBuffer where
  "example_quad_half = \<lparr>width = 1, height = 1, frames = 1, pixels = Some [0x0708090A]\<rparr>"

definition example_odd :: ImageBuffer where
  "example_odd = \<lparr>width = 2, height = 3, frames = 2,
     pixels = Some [0, 0, 0, 0, 0xFFFFFFFF, 0xFFFFFFFF, 0, 0, 0, 0, 0, 0]\<rparr>"

definition example_odd_half :: ImageBuffer where
  "example_odd_half = \<lparr>width = 1, height = 1, frames = 2, pixels = Some [0, 0x80808080]\<rparr>"

definition example_files :: files where
  "example_files =
     \<lparr>png_at = (\<lambda>p. if p = ''one.png'' then PNG_Image 1 1 (\<lambda>y x. 0x80FF8040) None
                     else PNG_Unreadable),
      jpg_at = (\<lambda>p. if p = ''one.jpg'' then JPG_Image 1 1 (\<lambda>y x. 0xFF102030) 1
                     else JPG_Empty)\<rparr>"

section \<open>Sequencing and loops\<close>

lemma seq_Inl [simp]: "seq (Inl e) f = Inl e"
  by (simp add: seq_def)

lemma seq_Inr [simp]: "seq (Inr v) f = f v"
  by (simp add: seq_def)

lemma seq_eq_Inr: "seq m f = Inr r \<longleftrightarrow> (\<exists>v. m = Inr v \<and> f v = Inr r)"
  by (cases m) simp_all

lemma for_each_append: "for_each (xs @ ys) body s = seq (for_each xs body s) (for_each ys body)"
proof (induction xs arbitrary: s)
  case Nil
  show ?case by simp
next
  case (Cons i xs)
  show ?case by (cases "body i s") (simp_all add: Cons.IH)
qed

lemma for_each_snoc: "for_each (xs @ [i]) body s = seq (for_each xs body s) (body i)"
proof -
  have "for_each [i] body = body i"
  proof
    fix t show "for_each [i] body t = body i t" by (cases "body i t") simp_all
  qed
  then show ?thesis by (simp add: for_each_append)
qed

lemma load_eq_Inr: "load mem i = Inr v \<longleftrightarrow> 0 \<le> i \<and> i < int (length mem) \<and> v = mem ! nat i"
  by (auto simp: load_def)

lemma store_eq_Inr:
  "store mem i v = Inr mem' \<longleftrightarrow> 0 \<le> i \<and> i < int (length mem) \<and> mem' = mem[nat i := v]"
  by (auto simp: store_def)

lemma for_each_collect:
  assumes "\<And>i out. i \<in> set xs \<Longrightarrow> body i out = Inr (out @ g i)"
  shows "for_each xs body out = Inr (out @ concat (map g xs))"
  using assms
proof (induction xs arbitrary: out)
  case Nil
  show ?case by simp
next
  case (Cons i xs)
  have "body i out = Inr (out @ g i)" using Cons.prems by simp
  moreover have "for_each xs body (out @ g i) = Inr ((out @ g i) @ concat (map g xs))"
    using Cons.prems by (intro Cons.IH) simp
  ultimately show ?case by simp
qed

lemma concat_uniform:
  assumes "\<And>i. i < n \<Longrightarrow> length (g i) = k"
  shows "length (concat (map g [0 ..< n])) = n * k
       \<and> (\<forall>i j. i < n \<longrightarrow> j < k \<longrightarrow> concat (map g [0 ..< n]) ! (i * k + j) = g i ! j)"
  using assms
proof (induction n)
  case 0
  show ?case by simp
next
  case (Suc n)
  have IH: "length (concat (map g [0 ..< n])) = n * k"
    "\<And>i j. i < n \<Longrightarrow> j < k \<Longrightarrow> concat (map g [0 ..< n]) ! (i * k + j) = g i ! j"
    using Suc.IH Suc.prems by simp_all
  have gn: "length (g n) = k" using Suc.prems by simp
  have "concat (map g [0 ..< Suc n]) ! (i * k + j) = g i ! j" if "i < Suc n" "j < k" for i j
  proof (cases "i < n")
    case True
    then have "Suc i \<le> n" by simp
    then have "Suc i * k \<le> n * k" by (rule mult_le_mono1)
    then have "i * k + j < n * k" using that(2) by simp
    then show ?thesis using IH(1) IH(2)[OF True that(2)] by (simp add: nth_append)
  next
    case False
    then have "i = n" using that(1) by simp
    then show ?thesis using IH(1) by (simp add: nth_append)
  qed
  then show ?case using IH(1) gn by simp
qed

section \<open>Allocate and Clear\<close>

lemma Allocate_noop: "pixels b \<noteq> None \<Longrightarrow> Allocate hp w h b = Inr b"
  by (simp add: Allocate_def)

lemma Allocate_Inr_new:
  assumes "Allocate hp w h (ImageBuffer_new n) = Inr b" and "w \<noteq> 0" "h \<noteq> 0" "n \<noteq> 0"
  shows "b = \<lparr>width = w, height = h, frames = n,
               pixels = Some (map (garbage hp) [0 ..< nat (w * h * n)])\<rparr>"
    and "0 \<le> w * h * n" "w * h * n \<le> int (capacity hp)" "int_ok (w * h * n)"
  using assms by (auto simp: Allocate_def ImageBuffer_new_def split: if_splits)

lemma allocatedE:
  assumes "allocated b"
  obtains ps where "pixels b = Some ps" "storage b = ps" "0 < width b" "0 < height b"
    "0 < frames b" "int (length ps) = width b * height b * frames b"
  using assms by (auto simp: allocated_def storage_def split: option.splits)

text \<open>A request that fits in \<open>int\<close> and in the heap is granted.\<close>

lemma Allocate_returns:
  assumes "0 < w" "0 < h" "0 < n" "w * h * n \<le> INT_MAX" "w * h * n \<le> int (capacity hp)"
  shows "\<exists>b. Allocate hp w h (ImageBuffer_new n) = Inr b \<and> allocated b"
proof -
  have p: "0 < w * h" "0 < w * h * n" using assms by simp_all
  have "w * h * 1 \<le> w * h * n" using assms p by (intro mult_left_mono) auto
  then have "w * h \<le> w * h * n" by simp
  then have le: "w * h \<le> INT_MAX" using assms(4) by (rule order_trans)
  have ok: "int_ok (w * h)" "int_ok (w * h * n)"
    unfolding int_ok_def INT_MIN_def using p le assms(4) by linarith+
  have nn: "\<not> w * h * n < 0" using p(2) by linarith
  show ?thesis using assms ok nn
    by (simp add: Allocate_def ImageBuffer_new_def allocated_def)
qed



text \<open>
  C7, as the code has it: \<open>Width()\<close> and \<open>Height()\<close> return 0 on a buffer just
  constructed, which holds no storage; \<open>Clear\<close> releases the storage and sets the frame
  count, and leaves the width and the height as they were. So \<open>Width()\<close> and
  \<open>Height()\<close> are 0 as long as nothing was allocated, and after \<open>Clear\<close> releases an
  allocated buffer's storage they still return that buffer's dimensions.
\<close>

theorem Clear_keeps_dimensions:
  "Width (ImageBuffer_new n) = 0 \<and> Height (ImageBuffer_new n) = 0
   \<and> Pixels (ImageBuffer_new n) = None
   \<and> Pixels (Clear m b) = None \<and> Frames (Clear m b) = m
   \<and> Width (Clear m b) = Width b \<and> Height (Clear m b) = Height b"
  by (simp add: Width_def Height_def Frames_def Pixels_def ImageBuffer_new_def Clear_def)

text \<open>
  The claim C7 as stated fails: after \<open>Clear\<close> on the allocated 2 by 2 buffer no storage
  is held, and \<open>Width()\<close> and \<open>Height()\<close> are 2.
\<close>

theorem Clear_width_counterexample:
  "Allocate example_heap 2 2 (ImageBuffer_new 1) = Inr example_2x2
   \<and> Pixels (Clear 1 example_2x2) = None
   \<and> Width (Clear 1 example_2x2) = 2 \<and> Height (Clear 1 example_2x2) = 2"
  by (simp add: Allocate_def ImageBuffer_new_def example_heap_def example_2x2_def
      int_ok_def INT_MIN_def INT_MAX_def Clear_def Pixels_def Width_def Height_def upt_rec)

section \<open>The arithmetic of one pixel\<close>

lemma and_ff: "x AND (0xFF::'a::len word) = take_bit 8 x"
  using take_bit_eq_mask[of 8 x] by (simp add: mask_eq_exp_minus_1)

lemma and_shifted_mask:
  "(x::'a::len word) AND push_bit k (mask 8) = push_bit k (take_bit 8 (drop_bit k x))"
  by (rule bit_eqI) (auto simp: bit_simps)

lemma and_ff00: "(x::u64) AND 0xFF00 = push_bit 8 (take_bit 8 (drop_bit 8 x))"
  using and_shifted_mask[of x 8] by (simp add: mask_eq_exp_minus_1)

lemma and_ff0000: "(x::u64) AND 0xFF0000 = push_bit 16 (take_bit 8 (drop_bit 16 x))"
  using and_shifted_mask[of x 16] by (simp add: mask_eq_exp_minus_1)

lemma and_ff000000: "(x::u64) AND 0xFF000000 = push_bit 24 (take_bit 8 (drop_bit 24 x))"
  using and_shifted_mask[of x 24] by (simp add: mask_eq_exp_minus_1)

text \<open>Dividing the shifted product by 255 and shifting back divides the product by 255.\<close>

lemma scale_nat:
  assumes "c < 256" "a < 256"
  shows "((2 ^ k * c * a) div 255) div 2 ^ k mod 256 = (c * a) div (255::nat)"
proof -
  have "((2 ^ k * c * a) div 255) div 2 ^ k = (2 ^ k * (c * a)) div (255 * 2 ^ k)"
    by (simp add: div_mult2_eq mult.assoc)
  also have "\<dots> = (c * a) div 255"
    by (simp add: mult.commute)
  finally have e: "((2 ^ k * c * a) div 255) div 2 ^ k = (c * a) div 255" .
  have "c * a \<le> 255 * 255" using assms by (intro mult_le_mono) auto
  then have "(c * a) div 255 < 256" by simp
  with e show ?thesis by simp
qed

lemma unat_chan:
  fixes c a :: u64
  assumes "unat c < 256" "unat a < 256" "k \<le> 16"
  shows "unat (take_bit 8 (drop_bit k ((push_bit k c * a) div 255))) = (unat c * unat a) div 255"
proof -
  have ca: "unat c * unat a \<le> 255 * 255" using assms by (intro mult_le_mono) auto
  have pk: "(2::nat) ^ k \<le> 2 ^ 16" using assms by (intro power_increasing) auto
  have "2 ^ k * (unat c * unat a) \<le> 2 ^ 16 * (255 * 255)"
    by (rule mult_le_mono[OF pk ca])
  then have b: "2 ^ k * unat c * unat a < 2 ^ 64" by (simp add: mult.assoc)
  have "unat c \<le> 255" using assms by simp
  from mult_le_mono[OF pk this] have b': "2 ^ k * unat c < 2 ^ 64" by simp
  have "unat (push_bit k c) = take_bit 64 (push_bit k (unat c))"
    by (simp add: unsigned_push_bit_eq)
  also have "\<dots> = push_bit k (unat c)"
    using b' by (intro take_bit_nat_eq_self) (simp add: push_bit_eq_mult mult.commute)
  finally have 1: "unat (push_bit k c) = 2 ^ k * unat c"
    by (simp add: push_bit_eq_mult mult.commute)
  have 2: "unat (push_bit k c * a) = 2 ^ k * unat c * unat a"
    using b by (simp add: unat_mult_lem[THEN iffD1] 1)
  have "unat (take_bit 8 (drop_bit k ((push_bit k c * a) div 255)))
      = ((2 ^ k * unat c * unat a) div 255) div 2 ^ k mod 256"
    by (simp only: unsigned_take_bit_eq unat_drop_bit_eq unat_div 2)
       (simp add: take_bit_eq_mod drop_bit_eq_div)
  then show ?thesis using scale_nat[OF assms(1,2)] by simp
qed

lemma alpha_of_pack: "alpha_of (pack a r g b) = unat (take_bit 8 a)"
proof -
  have "drop_bit 24 (pack a r g b) = ucast (take_bit 8 a)"
    unfolding pack_def by (rule bit_eqI) (auto simp: bit_simps)
  then show ?thesis by (simp add: alpha_of_def unsigned_ucast_eq unsigned_take_bit_eq)
qed

lemma red_of_pack: "red_of (pack a r g b) = unat (take_bit 8 r)"
proof -
  have "drop_bit 16 (pack a r g b) AND 0xFF = ucast (take_bit 8 r)"
    unfolding pack_def and_ff by (rule bit_eqI) (auto simp: bit_simps)
  then show ?thesis by (simp add: red_of_def unsigned_ucast_eq unsigned_take_bit_eq)
qed

lemma green_of_pack: "green_of (pack a r g b) = unat (take_bit 8 g)"
proof -
  have "drop_bit 8 (pack a r g b) AND 0xFF = ucast (take_bit 8 g)"
    unfolding pack_def and_ff by (rule bit_eqI) (auto simp: bit_simps)
  then show ?thesis by (simp add: green_of_def unsigned_ucast_eq unsigned_take_bit_eq)
qed

lemma blue_of_pack: "blue_of (pack a r g b) = unat (take_bit 8 b)"
proof -
  have "pack a r g b AND 0xFF = ucast (take_bit 8 b)"
    unfolding pack_def and_ff by (rule bit_eqI) (auto simp: bit_simps)
  then show ?thesis by (simp add: blue_of_def unsigned_ucast_eq unsigned_take_bit_eq)
qed

lemma unat_wide_eq: "unat (wide px k) = (unat px div 2 ^ k) mod 256"
proof -
  have "unat (ucast px :: u64) = unat px"
    by (simp add: unsigned_ucast_eq take_bit_nat_eq_self[OF order_less_trans[OF unsigned_less]])
  then show ?thesis
    by (simp only: wide_def unsigned_take_bit_eq unat_drop_bit_eq)
       (simp add: take_bit_eq_mod drop_bit_eq_div)
qed

lemma channel_nat:
  "alpha_of px = (unat px div 2 ^ 24) mod 256" "red_of px = (unat px div 2 ^ 16) mod 256"
  "green_of px = (unat px div 2 ^ 8) mod 256" "blue_of px = (unat px div 2 ^ 0) mod 256"
proof -
  have "unat px < 2 ^ 32" using unsigned_less[of px] by simp
  then have "unat px div 2 ^ 24 < 256" by simp
  then show "alpha_of px = (unat px div 2 ^ 24) mod 256"
    by (simp only: alpha_of_def unat_drop_bit_eq) (simp add: drop_bit_eq_div)
  show "red_of px = (unat px div 2 ^ 16) mod 256"
    by (simp only: red_of_def and_ff unsigned_take_bit_eq unat_drop_bit_eq)
       (simp add: take_bit_eq_mod drop_bit_eq_div)
  show "green_of px = (unat px div 2 ^ 8) mod 256"
    by (simp only: green_of_def and_ff unsigned_take_bit_eq unat_drop_bit_eq)
       (simp add: take_bit_eq_mod drop_bit_eq_div)
  show "blue_of px = (unat px div 2 ^ 0) mod 256"
    by (simp only: blue_of_def and_ff unsigned_take_bit_eq unat_drop_bit_eq)
       (simp add: take_bit_eq_mod drop_bit_eq_div)
qed

lemma unat_wide:
  "unat (wide px 24) = alpha_of px" "unat (wide px 16) = red_of px"
  "unat (wide px 8) = green_of px" "unat (wide px 0) = blue_of px"
  by (simp_all only: unat_wide_eq channel_nat)

lemma unat_wide_less: "unat (wide px k) < 256"
  by (simp add: unat_wide_eq)

lemma premultiply_pixel_pack:
  "premultiply_pixel blend px =
     pack (if blend = ADDITIVE then 0 else if blend = HALF_ADDITIVE then drop_bit 2 (wide px 24) else wide px 24)
          (drop_bit 16 ((push_bit 16 (wide px 16) * wide px 24) div 255))
          (drop_bit 8 ((push_bit 8 (wide px 8) * wide px 24) div 255))
          ((wide px 0 * wide px 24) div 255)"
proof -
  have a: "drop_bit 24 (push_bit 24 (wide px 24)) = wide px 24"
    unfolding wide_def by (rule bit_eqI) (auto simp: bit_simps)
  have h: "take_bit 8 (drop_bit 2 (wide px 24)) = drop_bit 2 (wide px 24)"
    unfolding wide_def by (rule bit_eqI) (auto simp: bit_simps)
  have t: "take_bit 8 (wide px 24) = wide px 24"
    unfolding wide_def by simp
  show ?thesis
    unfolding premultiply_pixel_def Let_def and_ff and_ff00 and_ff0000 and_ff000000 pack_def
    by (simp add: a h t flip: wide_def) (simp add: wide_def ac_simps)
qed

lemma premultiply_pixel_red:
  "red_of (premultiply_pixel blend px) = (red_of px * alpha_of px) div 255"
  using unat_chan[OF unat_wide_less[of px 16] unat_wide_less[of px 24], of 16]
  by (simp add: premultiply_pixel_pack red_of_pack unat_wide)

lemma premultiply_pixel_green:
  "green_of (premultiply_pixel blend px) = (green_of px * alpha_of px) div 255"
  using unat_chan[OF unat_wide_less[of px 8] unat_wide_less[of px 24], of 8]
  by (simp add: premultiply_pixel_pack green_of_pack unat_wide)

lemma premultiply_pixel_blue:
  "blue_of (premultiply_pixel blend px) = (blue_of px * alpha_of px) div 255"
  using unat_chan[OF unat_wide_less[of px 0] unat_wide_less[of px 24], of 0]
  by (simp add: premultiply_pixel_pack blue_of_pack unat_wide)

lemma premultiply_pixel_alpha:
  "alpha_of (premultiply_pixel blend px) =
     (if blend = ADDITIVE then 0 else if blend = HALF_ADDITIVE then alpha_of px div 4 else alpha_of px)"
proof -
  have l: "alpha_of px < 256" by (simp add: channel_nat)
  have 1: "unat (take_bit 8 (wide px 24)) = alpha_of px"
    by (simp add: wide_def flip: unat_wide)
  have 2: "unat (take_bit 8 (drop_bit 2 (wide px 24))) = alpha_of px div 4"
    using l by (simp only: unsigned_take_bit_eq unat_drop_bit_eq unat_wide)
      (simp add: take_bit_eq_mod drop_bit_eq_div)
  show ?thesis
    by (simp add: premultiply_pixel_pack alpha_of_pack 1 2)
qed

section \<open>The loops of Premultiply\<close>

lemma premultiply_loop:
  assumes "for_each [0 ..< n] (\<lambda>x mem.
             seq (load mem (it + int x)) (\<lambda>v. store mem (it + int x) (f v))) mem = Inr mem'"
  shows "length mem' = length mem
       \<and> (0 < n \<longrightarrow> 0 \<le> it \<and> it + int n \<le> int (length mem))
       \<and> (\<forall>j < length mem. mem' ! j = (if it \<le> int j \<and> int j < it + int n then f (mem ! j) else mem ! j))"
  using assms
proof (induction n arbitrary: mem')
  case 0
  then show ?case by auto
next
  case (Suc n)
  from Suc.prems obtain mem1 where
    1: "for_each [0 ..< n] (\<lambda>x mem.
             seq (load mem (it + int x)) (\<lambda>v. store mem (it + int x) (f v))) mem = Inr mem1"
    and 2: "seq (load mem1 (it + int n)) (\<lambda>v. store mem1 (it + int n) (f v)) = Inr mem'"
    by (auto simp: for_each_snoc seq_eq_Inr)
  note IH = Suc.IH[OF 1]
  from 2 have r: "0 \<le> it + int n" "it + int n < int (length mem1)"
    and m: "mem' = mem1[nat (it + int n) := f (mem1 ! nat (it + int n))]"
    by (auto simp: seq_eq_Inr load_eq_Inr store_eq_Inr)
  have len: "length mem' = length mem" using m IH by simp
  have lo: "0 \<le> it" using IH r by (cases "n = 0") auto
  have old: "mem1 ! nat (it + int n) = mem ! nat (it + int n)"
    using IH r by auto
  have "\<forall>j < length mem. mem' ! j = (if it \<le> int j \<and> int j < it + int (Suc n) then f (mem ! j) else mem ! j)"
  proof (intro allI impI)
    fix j assume j: "j < length mem"
    show "mem' ! j = (if it \<le> int j \<and> int j < it + int (Suc n) then f (mem ! j) else mem ! j)"
    proof (cases "j = nat (it + int n)")
      case True
      then show ?thesis using m old r IH lo by auto
    next
      case False
      then have "mem' ! j = mem1 ! j" using m by simp
      moreover have "int j \<noteq> it + int n" using False r by auto
      ultimately show ?thesis using IH j by auto
    qed
  qed
  then show ?case using len lo r IH by auto
qed

lemma Premultiply_row_Inr:
  assumes "Premultiply_row blend w it mem = Inr mem'"
  shows "0 \<le> w" "length mem' = length mem"
    "0 < w \<Longrightarrow> 0 \<le> it \<and> it + w \<le> int (length mem)"
    "j < length mem \<Longrightarrow> mem' ! j = (if it \<le> int j \<and> int j < it + w then premultiply_pixel blend (mem ! j) else mem ! j)"
proof -
  from assms show w: "0 \<le> w" by (auto simp: Premultiply_row_def split: if_splits)
  with assms have "for_each [0 ..< nat w] (\<lambda>x mem.
             seq (load mem (it + int x)) (\<lambda>v. store mem (it + int x) (premultiply_pixel blend v))) mem = Inr mem'"
    by (simp add: Premultiply_row_def)
  note L = premultiply_loop[OF this]
  from L show "length mem' = length mem" by simp
  from L w show "0 < w \<Longrightarrow> 0 \<le> it \<and> it + w \<le> int (length mem)" by auto
  from L w show "j < length mem \<Longrightarrow> mem' ! j = (if it \<le> int j \<and> int j < it + w then premultiply_pixel blend (mem ! j) else mem ! j)"
    by auto
qed


lemma row_below:
  fixes W c :: int
  assumes "0 \<le> W" "y < m"
  shows "W * (int y + c) + W \<le> W * (int m + c)"
proof -
  have "W * (int y + 1 + c) \<le> W * (int m + c)"
    using assms by (intro mult_left_mono) auto
  then show ?thesis by (simp add: algebra_simps)
qed

lemma Premultiply_rows:
  assumes "for_each [0 ..< m]
            (\<lambda>y mem. seq (Begin b (int y) frame) (\<lambda>it. Premultiply_row blend (Width b) it mem))
            mem = Inr mem'"
  shows "length mem' = length mem
       \<and> (0 < m \<longrightarrow> 0 \<le> width b)
       \<and> (\<forall>y < m. 0 < width b \<longrightarrow> 0 \<le> width b * (int y + height b * frame)
              \<and> width b * (int y + height b * frame) + width b \<le> int (length mem))
       \<and> (\<forall>j < length mem. mem' ! j =
            (if \<exists>y < m. width b * (int y + height b * frame) \<le> int j
                   \<and> int j < width b * (int y + height b * frame) + width b
             then premultiply_pixel blend (mem ! j) else mem ! j))"
  using assms
proof (induction m arbitrary: mem')
  case 0
  then show ?case by auto
next
  case (Suc m)
  define it where "it = width b * (int m + height b * frame)"
  from Suc.prems obtain mem1 where
    1: "for_each [0 ..< m]
            (\<lambda>y mem. seq (Begin b (int y) frame) (\<lambda>it. Premultiply_row blend (Width b) it mem))
            mem = Inr mem1"
    and 2: "Premultiply_row blend (width b) it mem1 = Inr mem'"
    by (auto simp: for_each_snoc seq_eq_Inr Begin_def Width_def it_def split: if_splits)
  note IH = Suc.IH[OF 1]
  note R = Premultiply_row_Inr[OF 2]
  have len1: "length mem1 = length mem" using IH by simp
  have len: "length mem' = length mem" using R(2) len1 by simp
  have W: "0 \<le> width b" by (rule R(1))
  have rows: "\<forall>y < Suc m. 0 < width b \<longrightarrow> 0 \<le> width b * (int y + height b * frame)
              \<and> width b * (int y + height b * frame) + width b \<le> int (length mem)"
    using IH R(3) len1 by (auto simp: less_Suc_eq it_def)
  have "\<forall>j < length mem. mem' ! j =
            (if \<exists>y < Suc m. width b * (int y + height b * frame) \<le> int j
                   \<and> int j < width b * (int y + height b * frame) + width b
             then premultiply_pixel blend (mem ! j) else mem ! j)"
  proof (intro allI impI)
    fix j assume j: "j < length mem"
    define inrow where "inrow y \<longleftrightarrow> width b * (int y + height b * frame) \<le> int j
                   \<and> int j < width b * (int y + height b * frame) + width b" for y
    have new: "mem' ! j = (if inrow m then premultiply_pixel blend (mem1 ! j) else mem1 ! j)"
      using R(4)[of j] j len1 by (simp add: it_def inrow_def)
    have old: "mem1 ! j = (if \<exists>y < m. inrow y then premultiply_pixel blend (mem ! j) else mem ! j)"
      using IH j by (simp add: inrow_def)
    have "mem' ! j = (if \<exists>y < Suc m. inrow y then premultiply_pixel blend (mem ! j) else mem ! j)"
    proof (cases "inrow m")
      case True
      have none: "\<not> (\<exists>y < m. inrow y)"
      proof
        assume "\<exists>y < m. inrow y"
        then obtain y where y: "y < m" "inrow y" by blast
        from row_below[OF W y(1), of "height b * frame"] y(2) True show False
          by (simp add: inrow_def)
      qed
      have "mem1 ! j = mem ! j" unfolding old using none by (simp only: if_False)
      moreover have "\<exists>y < Suc m. inrow y" using True by blast
      ultimately show ?thesis using new True by simp
    next
      case False
      then have "(\<exists>y < Suc m. inrow y) \<longleftrightarrow> (\<exists>y < m. inrow y)"
        by (auto simp: less_Suc_eq)
      moreover have "mem' ! j = mem1 ! j" using new False by simp
      ultimately show ?thesis using old by simp
    qed
    then show "mem' ! j =
            (if \<exists>y < Suc m. width b * (int y + height b * frame) \<le> int j
                   \<and> int j < width b * (int y + height b * frame) + width b
             then premultiply_pixel blend (mem ! j) else mem ! j)"
      by (simp add: inrow_def)
  qed
  with len W rows show ?case by blast
qed

lemma Premultiply_pixel_at:
  assumes "Premultiply buffer frame blend = Inr buffer'"
    and "0 \<le> x" "x < Width buffer" "0 \<le> y" "y < Height buffer"
  shows "pixel_at buffer' x y frame = premultiply_pixel blend (pixel_at buffer x y frame)"
    and "pixel_index buffer x y frame < length (storage buffer)"
    and "pixel_index buffer' x y frame = pixel_index buffer x y frame"
proof -
  from assms(1) obtain mem where
    1: "for_each [0 ..< nat (Height buffer)]
          (\<lambda>y mem. seq (Begin buffer (int y) frame) (\<lambda>it. Premultiply_row blend (Width buffer) it mem))
          (storage buffer) = Inr mem"
    and b': "buffer' = buffer\<lparr>pixels := map_option (\<lambda>_. mem) (pixels buffer)\<rparr>"
    by (auto simp: Premultiply_def seq_eq_Inr)
  note L = Premultiply_rows[OF 1]
  have y': "nat y < nat (Height buffer)" using assms by simp
  have W: "0 < width buffer" using assms by (simp add: Width_def)
  define it where "it = width buffer * (y + height buffer * frame)"
  from L y' W assms(4) have row: "0 \<le> it" "it + width buffer \<le> int (length (storage buffer))"
    by (auto simp: it_def dest!: spec[of _ "nat y"])
  define j where "j = nat (it + x)"
  have j: "j < length (storage buffer)" "it \<le> int j" "int j < it + width buffer"
    using row assms by (auto simp: j_def Width_def)
  show idx: "pixel_index buffer x y frame < length (storage buffer)"
    using j by (simp add: pixel_index_def j_def it_def)
  have "storage buffer \<noteq> []" using j by auto
  then obtain ps where ps: "pixels buffer = Some ps" by (auto simp: storage_def split: option.splits)
  have st: "storage buffer' = mem" using ps b' by (simp add: storage_def)
  show "pixel_index buffer' x y frame = pixel_index buffer x y frame"
    using b' by (simp add: pixel_index_def)
  have "\<exists>y' < nat (Height buffer). width buffer * (int y' + height buffer * frame) \<le> int j
       \<and> int j < width buffer * (int y' + height buffer * frame) + width buffer"
    using y' j assms(4) by (intro exI[of _ "nat y"]) (simp add: it_def)
  with L j(1) have "mem ! j = premultiply_pixel blend (storage buffer ! j)"
    by simp
  then show "pixel_at buffer' x y frame = premultiply_pixel blend (pixel_at buffer x y frame)"
    using st b' by (simp add: pixel_at_def pixel_index_def j_def it_def)
qed

section \<open>Premultiply returns on an allocated buffer\<close>

lemma premultiply_loop_returns:
  assumes "0 \<le> it" "it + int n \<le> int (length mem)"
  shows "\<exists>mem'. for_each [0 ..< n] (\<lambda>x mem.
             seq (load mem (it + int x)) (\<lambda>v. store mem (it + int x) (f v))) mem = Inr mem'
           \<and> length mem' = length mem"
  using assms
proof (induction n)
  case 0
  show ?case by simp
next
  case (Suc n)
  then obtain mem1 where 1: "for_each [0 ..< n] (\<lambda>x mem.
             seq (load mem (it + int x)) (\<lambda>v. store mem (it + int x) (f v))) mem = Inr mem1"
    and len: "length mem1 = length mem"
    by auto
  have "seq (load mem1 (it + int n)) (\<lambda>v. store mem1 (it + int n) (f v))
      = Inr (mem1[nat (it + int n) := f (mem1 ! nat (it + int n))])"
    using Suc.prems len by (simp add: load_def store_def)
  with 1 len show ?case by (simp add: for_each_snoc)
qed

lemma Premultiply_row_returns:
  assumes "0 \<le> w" "0 \<le> it" "it + w \<le> int (length mem)"
  shows "\<exists>mem'. Premultiply_row blend w it mem = Inr mem' \<and> length mem' = length mem"
  using premultiply_loop_returns[of it "nat w" mem "premultiply_pixel blend"] assms
  by (simp add: Premultiply_row_def)

lemma Begin_returns:
  assumes "0 < width b" "0 < height b" "0 \<le> frame" "frame < n" "0 \<le> y" "y < height b"
    and "width b * height b * n \<le> INT_MAX"
  shows "Begin b y frame = Inr (width b * (y + height b * frame))"
    and "0 \<le> width b * (y + height b * frame)"
    and "width b * (y + height b * frame) + width b \<le> width b * height b * n"
proof -
  define w h where "w = width b" and "h = height b"
  have pos: "0 < w" "0 < h" using assms by (simp_all add: w_def h_def)
  have hf: "0 \<le> h * frame" using pos assms(3) by simp
  have "h * (frame + 1) \<le> h * n" using pos assms(4) by (intro mult_left_mono) auto
  then have row: "y + 1 + h * frame \<le> h * n" using assms(6) by (simp add: algebra_simps h_def)
  then have "w * (y + 1 + h * frame) \<le> w * (h * n)" using pos by (intro mult_left_mono) auto
  then have top: "w * (y + h * frame) + w \<le> w * h * n" by (simp add: algebra_simps)
  have nn: "0 \<le> w * (y + h * frame)" using pos hf assms(5) by simp
  have "1 * (h * n) \<le> w * (h * n)" using pos row assms(5) hf by (intro mult_right_mono) auto
  then have hn: "h * n \<le> w * h * n" by (simp add: mult.assoc)
  have max: "w * h * n \<le> INT_MAX" using assms(7) by (simp add: w_def h_def)
  have "h * frame \<le> INT_MAX" "y + h * frame \<le> INT_MAX" "w * (y + h * frame) \<le> INT_MAX"
    using row hn max top pos assms(5) hf by linarith+
  then have "int_ok (h * frame)" "int_ok (y + h * frame)" "int_ok (w * (y + h * frame))"
    using hf nn assms(5) by (simp_all add: int_ok_def INT_MIN_def)
  then show "Begin b y frame = Inr (width b * (y + height b * frame))"
    by (simp add: Begin_def w_def h_def)
  show "0 \<le> width b * (y + height b * frame)" using nn by (simp add: w_def h_def)
  show "width b * (y + height b * frame) + width b \<le> width b * height b * n"
    using top by (simp add: w_def h_def)
qed

lemma Premultiply_rows_returns:
  assumes "0 < width b" "0 < height b" "0 \<le> frame" "frame < n"
    and "width b * height b * n \<le> INT_MAX" "int (length mem) = width b * height b * n"
    and "int m \<le> height b"
  shows "\<exists>mem'. for_each [0 ..< m]
            (\<lambda>y mem. seq (Begin b (int y) frame) (\<lambda>it. Premultiply_row blend (Width b) it mem))
            mem = Inr mem' \<and> length mem' = length mem"
  using assms(7)
proof (induction m)
  case 0
  show ?case by simp
next
  case (Suc m)
  then obtain mem1 where 1: "for_each [0 ..< m]
            (\<lambda>y mem. seq (Begin b (int y) frame) (\<lambda>it. Premultiply_row blend (Width b) it mem))
            mem = Inr mem1"
    and len: "length mem1 = length mem"
    by auto
  have y: "0 \<le> int m" "int m < height b" using Suc.prems by simp_all
  note B = Begin_returns[OF assms(1-4) y assms(5)]
  have "width b * (int m + height b * frame) + width b \<le> int (length mem1)"
    using B(3) assms(6) len by simp
  from Premultiply_row_returns[OF _ B(2) this, of blend] assms(1)
  obtain mem' where "Premultiply_row blend (width b) (width b * (int m + height b * frame)) mem1
      = Inr mem'" "length mem' = length mem1"
    by auto
  with 1 len B(1) show ?case by (simp add: for_each_snoc Width_def)
qed

text \<open>
  On an allocated buffer whose size fits in \<open>int\<close>, \<open>Premultiply\<close> returns for every
  frame of the buffer, and the result is allocated with the same dimensions.
\<close>

lemma Premultiply_returns:
  assumes "allocated b" "0 \<le> frame" "frame < frames b"
    and "width b * height b * frames b \<le> INT_MAX"
  shows "\<exists>b'. Premultiply b frame blend = Inr b' \<and> allocated b'
          \<and> Width b' = Width b \<and> Height b' = Height b \<and> Frames b' = Frames b"
proof -
  from assms(1) obtain ps where ps: "pixels b = Some ps" "storage b = ps"
    and pos: "0 < width b" "0 < height b"
    and len: "int (length ps) = width b * height b * frames b"
    by (rule allocatedE)
  have "int (nat (Height b)) \<le> height b" using pos by (simp add: Height_def)
  from Premultiply_rows_returns[OF pos assms(2,3,4) len this, of blend]
  obtain mem' where "for_each [0 ..< nat (Height b)]
            (\<lambda>y mem. seq (Begin b (int y) frame) (\<lambda>it. Premultiply_row blend (Width b) it mem))
            ps = Inr mem'" "length mem' = length ps"
    by auto
  then show ?thesis using ps assms(1)
    by (simp add: Premultiply_def allocated_def Width_def Height_def Frames_def)
qed

section \<open>Premultiply: the claims\<close>

lemma scaled_le:
  assumes "a < 256"
  shows "(c * a) div 255 \<le> (c::nat)"
proof -
  have "c * a \<le> c * 255" using assms by (intro mult_le_mono) auto
  then have "(c * a) div 255 \<le> (c * 255) div 255" by (rule div_le_mono)
  then show ?thesis by simp
qed

lemma alpha_of_less: "alpha_of px < 256"
  by (simp add: channel_nat)

text \<open>
  C4: for every pixel processed by \<open>Premultiply\<close>, in every blend mode, the red, green
  and blue channel of the result are the input channel times the input alpha, divided by
  255 with truncation; each is computed from the pixel's own channel and alpha only.
  \<open>Premultiply\<close> returns on every frame of an allocated buffer whose size fits in
  \<open>int\<close>, and processes every pixel of that frame.
\<close>

theorem Premultiply_color_channels:
  assumes "allocated buffer" and "0 \<le> frame" and "frame < frames buffer"
    and "width buffer * height buffer * frames buffer \<le> INT_MAX"
  shows "\<exists>buffer'. Premultiply buffer frame blend = Inr buffer'
       \<and> (\<forall>x y. 0 \<le> x \<and> x < Width buffer \<and> 0 \<le> y \<and> y < Height buffer \<longrightarrow>
             red_of (pixel_at buffer' x y frame)
               = (red_of (pixel_at buffer x y frame) * alpha_of (pixel_at buffer x y frame)) div 255
           \<and> green_of (pixel_at buffer' x y frame)
               = (green_of (pixel_at buffer x y frame) * alpha_of (pixel_at buffer x y frame)) div 255
           \<and> blue_of (pixel_at buffer' x y frame)
               = (blue_of (pixel_at buffer x y frame) * alpha_of (pixel_at buffer x y frame)) div 255)"
proof -
  from Premultiply_returns[OF assms, of blend]
  obtain buffer' where run: "Premultiply buffer frame blend = Inr buffer'" by blast
  have "red_of (pixel_at buffer' x y frame)
               = (red_of (pixel_at buffer x y frame) * alpha_of (pixel_at buffer x y frame)) div 255
           \<and> green_of (pixel_at buffer' x y frame)
               = (green_of (pixel_at buffer x y frame) * alpha_of (pixel_at buffer x y frame)) div 255
           \<and> blue_of (pixel_at buffer' x y frame)
               = (blue_of (pixel_at buffer x y frame) * alpha_of (pixel_at buffer x y frame)) div 255"
    if "0 \<le> x" "x < Width buffer" "0 \<le> y" "y < Height buffer" for x y
    by (simp only: Premultiply_pixel_at(1)[OF run that] premultiply_pixel_red
        premultiply_pixel_green premultiply_pixel_blue simp_thms)
  with run show ?thesis by blast
qed

theorem Premultiply_color_channels_witness:
  "allocated example_pair \<and> (0::int) < frames example_pair
   \<and> width example_pair * height example_pair * frames example_pair \<le> INT_MAX
   \<and> Premultiply example_pair 0 ALPHA = Inr (example_pair\<lparr>pixels := Some [0x80804020, 0xFF102030]\<rparr>)
   \<and> (1::int) < Width example_pair \<and> (0::int) < Height example_pair
   \<and> red_of (pixel_at (example_pair\<lparr>pixels := Some [0x80804020, 0xFF102030]\<rparr>) 0 0 0)
        = (255 * 128) div 255
   \<and> green_of (pixel_at (example_pair\<lparr>pixels := Some [0x80804020, 0xFF102030]\<rparr>) 0 0 0)
        = (128 * 128) div 255
   \<and> blue_of (pixel_at (example_pair\<lparr>pixels := Some [0x80804020, 0xFF102030]\<rparr>) 0 0 0)
        = (64 * 128) div 255
   \<and> red_of (pixel_at (example_pair\<lparr>pixels := Some [0x80804020, 0xFF102030]\<rparr>) 1 0 0)
        = (16 * 255) div 255"
proof -
  have h: "allocated example_pair" "(0::int) \<le> 0" "(0::int) < frames example_pair"
    "width example_pair * height example_pair * frames example_pair \<le> INT_MAX"
    by (simp_all add: allocated_def example_pair_def INT_MAX_def)
  have run: "Premultiply example_pair 0 ALPHA
      = Inr (example_pair\<lparr>pixels := Some [0x80804020, 0xFF102030]\<rparr>)"
    by code_simp
  have dims: "(1::int) < Width example_pair" "(0::int) < Height example_pair"
    by (simp_all add: Width_def Height_def example_pair_def)
  have px: "pixel_at example_pair 0 0 0 = 0x80FF8040" "pixel_at example_pair 1 0 0 = 0xFF102030"
    by (simp_all add: pixel_at_def pixel_index_def storage_def example_pair_def)
  have ch: "red_of 0x80FF8040 = 255" "green_of 0x80FF8040 = 128" "blue_of 0x80FF8040 = 64"
    "alpha_of 0x80FF8040 = 128" "red_of 0xFF102030 = 16" "alpha_of 0xFF102030 = 255"
    by (simp_all add: red_of_def green_of_def blue_of_def alpha_of_def)
  from Premultiply_color_channels[OF h, of ALPHA]
  obtain buffer' where b': "Premultiply example_pair 0 ALPHA = Inr buffer'"
    and col: "\<And>x y. 0 \<le> x \<and> x < Width example_pair \<and> 0 \<le> y \<and> y < Height example_pair \<Longrightarrow>
             red_of (pixel_at buffer' x y 0)
               = (red_of (pixel_at example_pair x y 0) * alpha_of (pixel_at example_pair x y 0)) div 255
           \<and> green_of (pixel_at buffer' x y 0)
               = (green_of (pixel_at example_pair x y 0) * alpha_of (pixel_at example_pair x y 0)) div 255
           \<and> blue_of (pixel_at buffer' x y 0)
               = (blue_of (pixel_at example_pair x y 0) * alpha_of (pixel_at example_pair x y 0)) div 255"
    by blast
  from b' run have eq: "buffer' = example_pair\<lparr>pixels := Some [0x80804020, 0xFF102030]\<rparr>"
    by simp
  have "0 \<le> (0::int) \<and> 0 < Width example_pair \<and> 0 \<le> (0::int) \<and> 0 < Height example_pair"
    "0 \<le> (1::int) \<and> 1 < Width example_pair \<and> 0 \<le> (0::int) \<and> 0 < Height example_pair"
    using dims by simp_all
  from col[OF this(1)] col[OF this(2)] h run dims
  show ?thesis unfolding eq by (simp only: px ch simp_thms)
qed

text \<open>
  C5: for every pixel processed by \<open>Premultiply\<close>, the mode \<open>ADDITIVE\<close> gives output alpha
  0 and the mode \<open>HALF_ADDITIVE\<close> gives output alpha \<open>floor(input alpha / 4)\<close>.
  \<open>Premultiply\<close> returns on every frame of an allocated buffer whose size fits in
  \<open>int\<close>, and processes every pixel of that frame.
\<close>

theorem Premultiply_additive_alpha:
  assumes "allocated buffer" and "0 \<le> frame" and "frame < frames buffer"
    and "width buffer * height buffer * frames buffer \<le> INT_MAX"
  shows "(\<exists>buffer'. Premultiply buffer frame ADDITIVE = Inr buffer'
          \<and> (\<forall>x y. 0 \<le> x \<and> x < Width buffer \<and> 0 \<le> y \<and> y < Height buffer \<longrightarrow>
                alpha_of (pixel_at buffer' x y frame) = 0))
       \<and> (\<exists>buffer'. Premultiply buffer frame HALF_ADDITIVE = Inr buffer'
          \<and> (\<forall>x y. 0 \<le> x \<and> x < Width buffer \<and> 0 \<le> y \<and> y < Height buffer \<longrightarrow>
                alpha_of (pixel_at buffer' x y frame)
                  = alpha_of (pixel_at buffer x y frame) div 4))"
proof
  from Premultiply_returns[OF assms, of ADDITIVE]
  obtain buffer' where run: "Premultiply buffer frame ADDITIVE = Inr buffer'" by blast
  have "alpha_of (pixel_at buffer' x y frame) = 0"
    if "0 \<le> x" "x < Width buffer" "0 \<le> y" "y < Height buffer" for x y
    by (simp add: Premultiply_pixel_at(1)[OF run that] premultiply_pixel_alpha)
  with run show "\<exists>buffer'. Premultiply buffer frame ADDITIVE = Inr buffer'
          \<and> (\<forall>x y. 0 \<le> x \<and> x < Width buffer \<and> 0 \<le> y \<and> y < Height buffer \<longrightarrow>
                alpha_of (pixel_at buffer' x y frame) = 0)"
    by blast
next
  from Premultiply_returns[OF assms, of HALF_ADDITIVE]
  obtain buffer' where run: "Premultiply buffer frame HALF_ADDITIVE = Inr buffer'" by blast
  have "alpha_of (pixel_at buffer' x y frame) = alpha_of (pixel_at buffer x y frame) div 4"
    if "0 \<le> x" "x < Width buffer" "0 \<le> y" "y < Height buffer" for x y
    by (simp add: Premultiply_pixel_at(1)[OF run that] premultiply_pixel_alpha)
  with run show "\<exists>buffer'. Premultiply buffer frame HALF_ADDITIVE = Inr buffer'
          \<and> (\<forall>x y. 0 \<le> x \<and> x < Width buffer \<and> 0 \<le> y \<and> y < Height buffer \<longrightarrow>
                alpha_of (pixel_at buffer' x y frame)
                  = alpha_of (pixel_at buffer x y frame) div 4)"
    by blast
qed

theorem Premultiply_additive_alpha_witness:
  "allocated example_pair \<and> (0::int) < frames example_pair
   \<and> width example_pair * height example_pair * frames example_pair \<le> INT_MAX
   \<and> Premultiply example_pair 0 ADDITIVE
        = Inr (example_pair\<lparr>pixels := Some [0x00804020, 0x00102030]\<rparr>)
   \<and> Premultiply example_pair 0 HALF_ADDITIVE
        = Inr (example_pair\<lparr>pixels := Some [0x20804020, 0x3F102030]\<rparr>)
   \<and> (1::int) < Width example_pair \<and> (0::int) < Height example_pair
   \<and> alpha_of (pixel_at (example_pair\<lparr>pixels := Some [0x00804020, 0x00102030]\<rparr>) 1 0 0) = 0
   \<and> alpha_of (pixel_at (example_pair\<lparr>pixels := Some [0x20804020, 0x3F102030]\<rparr>) 1 0 0)
        = 255 div 4"
proof -
  have h: "allocated example_pair" "(0::int) \<le> 0" "(0::int) < frames example_pair"
    "width example_pair * height example_pair * frames example_pair \<le> INT_MAX"
    by (simp_all add: allocated_def example_pair_def INT_MAX_def)
  have run_a: "Premultiply example_pair 0 ADDITIVE
      = Inr (example_pair\<lparr>pixels := Some [0x00804020, 0x00102030]\<rparr>)"
    by code_simp
  have run_h: "Premultiply example_pair 0 HALF_ADDITIVE
      = Inr (example_pair\<lparr>pixels := Some [0x20804020, 0x3F102030]\<rparr>)"
    by code_simp
  have dims: "(1::int) < Width example_pair" "(0::int) < Height example_pair"
    by (simp_all add: Width_def Height_def example_pair_def)
  have px: "pixel_at example_pair 1 0 0 = 0xFF102030"
    by (simp add: pixel_at_def pixel_index_def storage_def example_pair_def)
  have ch: "alpha_of 0xFF102030 = 255"
    by (simp add: alpha_of_def)
  from Premultiply_additive_alpha[OF h]
  obtain ba bh where ba: "Premultiply example_pair 0 ADDITIVE = Inr ba"
    and za: "\<And>x y. 0 \<le> x \<and> x < Width example_pair \<and> 0 \<le> y \<and> y < Height example_pair \<Longrightarrow>
                alpha_of (pixel_at ba x y 0) = 0"
    and bh: "Premultiply example_pair 0 HALF_ADDITIVE = Inr bh"
    and qh: "\<And>x y. 0 \<le> x \<and> x < Width example_pair \<and> 0 \<le> y \<and> y < Height example_pair \<Longrightarrow>
                alpha_of (pixel_at bh x y 0) = alpha_of (pixel_at example_pair x y 0) div 4"
    by blast
  from ba run_a have ea: "ba = example_pair\<lparr>pixels := Some [0x00804020, 0x00102030]\<rparr>"
    by simp
  from bh run_h have eh: "bh = example_pair\<lparr>pixels := Some [0x20804020, 0x3F102030]\<rparr>"
    by simp
  have in_frame:
    "0 \<le> (1::int) \<and> 1 < Width example_pair \<and> 0 \<le> (0::int) \<and> 0 < Height example_pair"
    using dims by simp
  from za[OF in_frame] qh[OF in_frame] h run_a run_h dims
  show ?thesis unfolding ea eh by (simp only: px ch simp_thms)
qed

text \<open>
  C8: for every pixel processed by \<open>Premultiply\<close> in a mode that is neither \<open>ADDITIVE\<close>
  nor \<open>HALF_ADDITIVE\<close>, no output colour channel exceeds the input colour channel, and
  the output alpha is the input alpha.
\<close>

theorem Premultiply_straight_attenuates:
  assumes "Premultiply buffer frame blend = Inr buffer'"
    and "0 \<le> x" "x < Width buffer" "0 \<le> y" "y < Height buffer"
    and "blend \<noteq> ADDITIVE" "blend \<noteq> HALF_ADDITIVE"
  shows "red_of (pixel_at buffer' x y frame) \<le> red_of (pixel_at buffer x y frame)
       \<and> green_of (pixel_at buffer' x y frame) \<le> green_of (pixel_at buffer x y frame)
       \<and> blue_of (pixel_at buffer' x y frame) \<le> blue_of (pixel_at buffer x y frame)
       \<and> alpha_of (pixel_at buffer' x y frame) = alpha_of (pixel_at buffer x y frame)"
  using assms(6,7)
  by (simp add: Premultiply_pixel_at(1)[OF assms(1-5)] premultiply_pixel_red
      premultiply_pixel_green premultiply_pixel_blue premultiply_pixel_alpha
      scaled_le[OF alpha_of_less])

theorem Premultiply_straight_attenuates_witness:
  "Premultiply example_pixel 0 ALPHA = Inr (example_pixel\<lparr>pixels := Some [0x80804020]\<rparr>)
   \<and> (0::int) < Width example_pixel \<and> (0::int) < Height example_pixel
   \<and> ALPHA \<noteq> ADDITIVE \<and> ALPHA \<noteq> HALF_ADDITIVE
   \<and> red_of (pixel_at (example_pixel\<lparr>pixels := Some [0x80804020]\<rparr>) 0 0 0) \<le> 255
   \<and> green_of (pixel_at (example_pixel\<lparr>pixels := Some [0x80804020]\<rparr>) 0 0 0) \<le> 128
   \<and> blue_of (pixel_at (example_pixel\<lparr>pixels := Some [0x80804020]\<rparr>) 0 0 0) \<le> 64
   \<and> alpha_of (pixel_at (example_pixel\<lparr>pixels := Some [0x80804020]\<rparr>) 0 0 0) = 128"
proof -
  have run: "Premultiply example_pixel 0 ALPHA = Inr (example_pixel\<lparr>pixels := Some [0x80804020]\<rparr>)"
    by code_simp
  have dims: "(0::int) \<le> 0" "(0::int) < Width example_pixel" "(0::int) < Height example_pixel"
    by (simp_all add: Width_def Height_def example_pixel_def)
  have modes: "ALPHA \<noteq> ADDITIVE" "ALPHA \<noteq> HALF_ADDITIVE" by simp_all
  have px: "pixel_at example_pixel 0 0 0 = 0x80FF8040"
    by (simp add: pixel_at_def pixel_index_def storage_def example_pixel_def)
  have ch: "red_of 0x80FF8040 = 255" "green_of 0x80FF8040 = 128" "blue_of 0x80FF8040 = 64"
    "alpha_of 0x80FF8040 = 128"
    by (simp_all add: red_of_def green_of_def blue_of_def alpha_of_def)
  from Premultiply_straight_attenuates[OF run dims(1,2) dims(1,3) modes] run dims modes
  show ?thesis by (simp only: px ch simp_thms)
qed

section \<open>Read\<close>

lemma try_Allocate_noop: "pixels b \<noteq> None \<Longrightarrow> try_Allocate hp w h b = Inr b"
  by (simp add: try_Allocate_def Allocate_noop)

text \<open>
  C9: for every file descriptor whose extension is none of \<open>.png\<close>, \<open>.jpg\<close>,
  \<open>.jpeg\<close>, \<open>.jpe\<close>, \<open>Read\<close> returns false and the buffer is as before: nothing is
  allocated, no pixel is written, and the width, the height and the frame count stay.
\<close>

theorem Read_unsupported_extension:
  assumes "extension data \<notin> {''.png'', ''.jpg'', ''.jpeg'', ''.jpe''}"
  shows "Read hp fs data frame this = Inr (False, this)"
  using assms by (simp add: Read_def PNG_EXTENSIONS_def JPG_EXTENSIONS_def)

theorem Read_unsupported_extension_witness:
  "''.gif'' \<notin> {''.png'', ''.jpg'', ''.jpeg'', ''.jpe''}
   \<and> Read example_heap example_files
        \<lparr>path = ''one.png'', extension = ''.gif'', blendingMode = ALPHA\<rparr> 0 (ImageBuffer_new 1)
      = Inr (False, ImageBuffer_new 1)"
proof -
  have e: "extension \<lparr>path = ''one.png'', extension = ''.gif'', blendingMode = ALPHA\<rparr>
      \<notin> {''.png'', ''.jpg'', ''.jpeg'', ''.jpe''}"
    by simp
  from Read_unsupported_extension[OF e, of example_heap example_files 0 "ImageBuffer_new 1"] e
  show ?thesis by simp
qed

text \<open>
  C2: when a frame is decoded into a buffer whose dimensions are already fixed and the
  header's width or height differs from them, \<open>Read\<close> returns false and the buffer is
  as before: no pixel of that frame is written and the frames decoded earlier are
  unchanged. This holds on the PNG path and on the JPEG path.
\<close>

theorem Read_dimension_mismatch:
  assumes "pixels this \<noteq> None"
    and "extension data \<in> PNG_EXTENSIONS \<and> png_at fs (path data) = PNG_Image w h px stop
       \<or> extension data \<in> JPG_EXTENSIONS \<and> jpg_at fs (path data) = JPG_Image w h px n"
    and "int w \<noteq> Width this \<or> int h \<noteq> Height this"
  shows "Read hp fs data frame this = Inr (False, this)"
proof -
  have disj: "extension data \<in> PNG_EXTENSIONS \<Longrightarrow> extension data \<notin> JPG_EXTENSIONS"
    by (auto simp: PNG_EXTENSIONS_def JPG_EXTENSIONS_def)
  from assms(2) show ?thesis
  proof
    assume a: "extension data \<in> PNG_EXTENSIONS \<and> png_at fs (path data) = PNG_Image w h px stop"
    then have "ReadPNG hp (png_at fs (path data)) this frame = Inr (False, this)"
      using assms(1,3) by (auto simp: ReadPNG_def try_Allocate_noop)
    then show ?thesis using a by (simp add: Read_def)
  next
    assume a: "extension data \<in> JPG_EXTENSIONS \<and> jpg_at fs (path data) = JPG_Image w h px n"
    then have "ReadJPG hp (jpg_at fs (path data)) this frame = Inr (False, this)"
      using assms(1,3) by (auto simp: ReadJPG_def try_Allocate_noop)
    moreover have "extension data \<notin> PNG_EXTENSIONS" using a disj by blast
    ultimately show ?thesis using a by (simp add: Read_def)
  qed
qed

theorem Read_dimension_mismatch_witness:
  "pixels example_2x2 \<noteq> None
   \<and> png_at example_files ''one.png'' = PNG_Image 1 1 (\<lambda>y x. 0x80FF8040) None
   \<and> jpg_at example_files ''one.jpg'' = JPG_Image 1 1 (\<lambda>y x. 0xFF102030) 1
   \<and> int 1 \<noteq> Width example_2x2
   \<and> Read example_heap example_files
        \<lparr>path = ''one.png'', extension = ''.png'', blendingMode = ALPHA\<rparr> 0 example_2x2
      = Inr (False, example_2x2)
   \<and> Read example_heap example_files
        \<lparr>path = ''one.jpg'', extension = ''.jpeg'', blendingMode = ADDITIVE\<rparr> 0 example_2x2
      = Inr (False, example_2x2)"
proof -
  let ?png = "\<lparr>path = ''one.png'', extension = ''.png'', blendingMode = ALPHA\<rparr>"
  let ?jpg = "\<lparr>path = ''one.jpg'', extension = ''.jpeg'', blendingMode = ADDITIVE\<rparr>"
  have p: "pixels example_2x2 \<noteq> None" by (simp add: example_2x2_def)
  have fp: "png_at example_files ''one.png'' = PNG_Image 1 1 (\<lambda>y x. 0x80FF8040) None"
    and fj: "jpg_at example_files ''one.jpg'' = JPG_Image 1 1 (\<lambda>y x. 0xFF102030) 1"
    by (simp_all add: example_files_def)
  have d: "int 1 \<noteq> Width example_2x2 \<or> int 1 \<noteq> Height example_2x2"
    by (simp add: Width_def example_2x2_def)
  have hp: "extension ?png \<in> PNG_EXTENSIONS
        \<and> png_at example_files (path ?png) = PNG_Image 1 1 (\<lambda>y x. 0x80FF8040) None
      \<or> extension ?png \<in> JPG_EXTENSIONS
        \<and> jpg_at example_files (path ?png) = JPG_Image 1 1 (\<lambda>y x. 0x80FF8040) 0"
    using fp by (simp add: PNG_EXTENSIONS_def)
  have hj: "extension ?jpg \<in> PNG_EXTENSIONS
        \<and> png_at example_files (path ?jpg) = PNG_Image 1 1 (\<lambda>y x. 0xFF102030) None
      \<or> extension ?jpg \<in> JPG_EXTENSIONS
        \<and> jpg_at example_files (path ?jpg) = JPG_Image 1 1 (\<lambda>y x. 0xFF102030) 1"
    using fj by (simp add: JPG_EXTENSIONS_def)
  from Read_dimension_mismatch[OF p hp d, of example_heap 0]
    Read_dimension_mismatch[OF p hj d, of example_heap 0] p fp fj d
  show ?thesis by (simp add: Width_def example_2x2_def)
qed

text \<open>
  C3: on a successful decode, \<open>Read\<close> applies \<open>Premultiply\<close> to the decoded frame
  exactly when the blending mode is not \<open>PREMULTIPLIED_ALPHA\<close> and either the file is a
  PNG, or it is a JPEG and the blending mode is \<open>ADDITIVE\<close>; in every other successful
  case \<open>Read\<close> returns the decoded buffer untouched.
\<close>

theorem Read_premultiplies:
  assumes "extension data \<in> PNG_EXTENSIONS
             \<and> ReadPNG hp (png_at fs (path data)) this frame = Inr (True, decoded)
         \<or> extension data \<in> JPG_EXTENSIONS
             \<and> ReadJPG hp (jpg_at fs (path data)) this frame = Inr (True, decoded)"
  shows "Read hp fs data frame this =
          (if blendingMode data \<noteq> PREMULTIPLIED_ALPHA
              \<and> (extension data \<in> PNG_EXTENSIONS
                  \<or> extension data \<in> JPG_EXTENSIONS \<and> blendingMode data = ADDITIVE)
           then seq (Premultiply decoded frame (blendingMode data)) (\<lambda>result. Inr (True, result))
           else Inr (True, decoded))"
proof -
  have disj: "extension data \<in> PNG_EXTENSIONS \<Longrightarrow> extension data \<notin> JPG_EXTENSIONS"
    by (auto simp: PNG_EXTENSIONS_def JPG_EXTENSIONS_def)
  from assms show ?thesis
  proof
    assume a: "extension data \<in> PNG_EXTENSIONS
             \<and> ReadPNG hp (png_at fs (path data)) this frame = Inr (True, decoded)"
    then show ?thesis using disj by (simp add: Read_def)
  next
    assume a: "extension data \<in> JPG_EXTENSIONS
             \<and> ReadJPG hp (jpg_at fs (path data)) this frame = Inr (True, decoded)"
    moreover have "extension data \<notin> PNG_EXTENSIONS" using a disj by blast
    ultimately show ?thesis by (simp add: Read_def)
  qed
qed

theorem Read_premultiplies_witness:
  "ReadPNG example_heap (png_at example_files ''one.png'') (ImageBuffer_new 1) 0
      = Inr (True, example_pixel)
   \<and> Read example_heap example_files
        \<lparr>path = ''one.png'', extension = ''.png'', blendingMode = ALPHA\<rparr> 0 (ImageBuffer_new 1)
      = Inr (True, example_pixel\<lparr>pixels := Some [0x80804020]\<rparr>)
   \<and> ReadJPG example_heap (jpg_at example_files ''one.jpg'') (ImageBuffer_new 1) 0
      = Inr (True, example_opaque)
   \<and> Read example_heap example_files
        \<lparr>path = ''one.jpg'', extension = ''.jpg'', blendingMode = ALPHA\<rparr> 0 (ImageBuffer_new 1)
      = Inr (True, example_opaque)"
proof -
  let ?png = "\<lparr>path = ''one.png'', extension = ''.png'', blendingMode = ALPHA\<rparr>"
  let ?jpg = "\<lparr>path = ''one.jpg'', extension = ''.jpg'', blendingMode = ALPHA\<rparr>"
  have dp: "ReadPNG example_heap (png_at example_files ''one.png'') (ImageBuffer_new 1) 0
      = Inr (True, example_pixel)"
    by code_simp
  have dj: "ReadJPG example_heap (jpg_at example_files ''one.jpg'') (ImageBuffer_new 1) 0
      = Inr (True, example_opaque)"
    by code_simp
  have pm: "Premultiply example_pixel 0 ALPHA = Inr (example_pixel\<lparr>pixels := Some [0x80804020]\<rparr>)"
    by code_simp
  have hp: "extension ?png \<in> PNG_EXTENSIONS
        \<and> ReadPNG example_heap (png_at example_files (path ?png)) (ImageBuffer_new 1) 0
            = Inr (True, example_pixel)
      \<or> extension ?png \<in> JPG_EXTENSIONS
        \<and> ReadJPG example_heap (jpg_at example_files (path ?png)) (ImageBuffer_new 1) 0
            = Inr (True, example_pixel)"
    using dp by (simp add: PNG_EXTENSIONS_def)
  have hj: "extension ?jpg \<in> PNG_EXTENSIONS
        \<and> ReadPNG example_heap (png_at example_files (path ?jpg)) (ImageBuffer_new 1) 0
            = Inr (True, example_opaque)
      \<or> extension ?jpg \<in> JPG_EXTENSIONS
        \<and> ReadJPG example_heap (jpg_at example_files (path ?jpg)) (ImageBuffer_new 1) 0
            = Inr (True, example_opaque)"
    using dj by (simp add: JPG_EXTENSIONS_def)
  from Read_premultiplies[OF hp] Read_premultiplies[OF hj] dp dj pm
  show ?thesis by (simp add: PNG_EXTENSIONS_def JPG_EXTENSIONS_def)
qed

section \<open>ShrinkToHalfSize on a buffer narrower or lower than 2\<close>

lemma tdiv_2_eq_0: "\<bar>a\<bar> < 2 \<Longrightarrow> tdiv a 2 = 0"
  by (simp add: tdiv_def)

lemma ShrinkToHalfSize_zero:
  assumes "\<bar>width b\<bar> < 2 \<or> \<bar>height b\<bar> < 2"
  shows "ShrinkToHalfSize hp b = Inr (b\<lparr>width := 0, height := 0, pixels := None\<rparr>)"
proof -
  from assms have "tdiv (width b) 2 = 0 \<or> tdiv (height b) 2 = 0"
    using tdiv_2_eq_0 by blast
  then have "Allocate hp (tdiv (width b) 2) (tdiv (height b) 2) (ImageBuffer_new (frames b))
      = Inr (ImageBuffer_new (frames b))"
    by (auto simp: Allocate_def)
  then show ?thesis
    by (simp add: ShrinkToHalfSize_def ImageBuffer_new_def int_ok_def INT_MIN_def INT_MAX_def
        storage_def)
qed

text \<open>
  C10: if \<open>ShrinkToHalfSize\<close> is called on an allocated buffer whose width or height is
  less than 2, the buffer ends up unallocated with \<open>Width() = 0\<close> and \<open>Height() = 0\<close>,
  also in the dimension that was 2 or more: the \<open>Allocate\<close> of the half-size buffer is
  a no-op when a dimension is 0. The frame count stays.
\<close>

theorem ShrinkToHalfSize_below_two:
  assumes "allocated b" and "width b < 2 \<or> height b < 2"
  shows "\<exists>b'. ShrinkToHalfSize hp b = Inr b' \<and> Pixels b' = None
            \<and> Width b' = 0 \<and> Height b' = 0 \<and> Frames b' = Frames b"
proof -
  from assms have "\<bar>width b\<bar> < 2 \<or> \<bar>height b\<bar> < 2"
    by (auto simp: allocated_def split: option.splits)
  from ShrinkToHalfSize_zero[OF this] show ?thesis
    by (simp add: Pixels_def Width_def Height_def Frames_def)
qed

theorem ShrinkToHalfSize_below_two_witness:
  "allocated example_1x4 \<and> width example_1x4 < 2
   \<and> ShrinkToHalfSize example_heap example_1x4
        = Inr \<lparr>width = 0, height = 0, frames = 1, pixels = None\<rparr>
   \<and> Height example_1x4 = 4"
proof -
  have a: "allocated example_1x4" by (simp add: allocated_def example_1x4_def)
  have w: "width example_1x4 < 2 \<or> height example_1x4 < 2" by (simp add: example_1x4_def)
  from ShrinkToHalfSize_below_two[OF a w, of example_heap]
  obtain b' where b': "ShrinkToHalfSize example_heap example_1x4 = Inr b'" "Pixels b' = None"
    "Width b' = 0" "Height b' = 0" "Frames b' = Frames example_1x4" by blast
  then have "b' = \<lparr>width = 0, height = 0, frames = 1, pixels = None\<rparr>"
    by (cases b') (simp add: Pixels_def Width_def Height_def Frames_def example_1x4_def)
  with b'(1) a show ?thesis by (simp add: example_1x4_def Height_def)
qed

section \<open>Bytes and pixels\<close>

lemma length_bytes_of: "length (bytes_of ps) = 4 * length ps"
  by (induction ps) (simp_all add: bytes_of_def)

lemma length_pixels_of: "length (pixels_of bs) = length bs div 4"
  by (induction bs rule: pixels_of.induct) simp_all

lemma byte_roundtrip:
  fixes b0 b1 b2 b3 :: u8
  defines "p \<equiv> (ucast b0 OR push_bit 8 (ucast b1) OR push_bit 16 (ucast b2)
                  OR push_bit 24 (ucast b3) :: u32)"
  shows "ucast p = b0" "ucast (drop_bit 8 p) = b1" "ucast (drop_bit 16 p) = b2"
    "ucast (drop_bit 24 p) = b3"
proof -
  show "ucast p = b0"
    unfolding p_def by (rule bit_eqI) (auto simp: bit_simps dest: bit_imp_le_length)
  show "ucast (drop_bit 8 p) = b1"
    unfolding p_def by (rule bit_eqI) (auto simp: bit_simps dest: bit_imp_le_length)
  show "ucast (drop_bit 16 p) = b2"
    unfolding p_def by (rule bit_eqI) (auto simp: bit_simps dest: bit_imp_le_length)
  show "ucast (drop_bit 24 p) = b3"
    unfolding p_def by (rule bit_eqI) (auto simp: bit_simps dest: bit_imp_le_length)
qed

lemma bytes_of_pixels_of: "4 dvd length bs \<Longrightarrow> bytes_of (pixels_of bs) = bs"
proof (induction bs rule: pixels_of.induct)
  case (1 b0 b1 b2 b3 bs)
  have "length (b0 # b1 # b2 # b3 # bs) = length bs + 4" by simp
  with "1.prems" have "4 dvd length bs + 4" by (simp only:)
  then have "4 dvd length bs" by (simp only: dvd_add_triv_right_iff)
  with 1 have "bytes_of (pixels_of bs) = bs" by simp
  then show ?case using byte_roundtrip[of b0 b1 b2 b3] by (simp add: bytes_of_def)
qed (simp_all add: bytes_of_def flip: numeral_2_eq_2 numeral_3_eq_3)

section \<open>The loops of ShrinkToHalfSize\<close>

lemma shrink_channel_Inr:
  assumes "0 \<le> aIt" "0 \<le> bIt" "aIt + 4 < int (length mem)" "bIt + 4 < int (length mem)"
  shows "shrink_channel mem aIt bIt = Inr (shrink_value mem aIt bIt)"
  using assms by (simp add: shrink_channel_def load_def shrink_value_def)

lemma shrink_row_Inr:
  assumes w: "0 < w" and y: "0 \<le> y" and rw: "0 \<le> rw" "2 * rw \<le> w"
    and mem: "(4 * w) * (2 * y + 2) \<le> int (length mem)"
    and fits: "(4 * w) * (2 * y + 2) \<le> INT_MAX"
  shows "shrink_row mem w rw y out = Inr (out @ shrink_row_bytes mem w rw y)"
proof -
  have wy: "0 \<le> w * y" using w y by simp
  have "1 * y \<le> w * y" using w y by (intro mult_right_mono) auto
  then have ywy: "y \<le> w * y" by simp
  have ok: "int_ok (4 * w)" "int_ok (2 * y + 1)" "int_ok ((4 * w) * (2 * y))"
    "int_ok ((4 * w) * (2 * y + 1))" "int_ok (4 * 2 * rw)"
    using w y rw wy ywy fits
    by (simp_all add: int_ok_def INT_MIN_def INT_MAX_def algebra_simps)
  have chan: "seq (shrink_channel mem ((4 * w) * (2 * y) + 8 * int x + int c)
                                     ((4 * w) * (2 * y + 1) + 8 * int x + int c))
                 (\<lambda>v. Inr (acc @ [v]))
              = Inr (acc @ [shrink_value mem ((4 * w) * (2 * y) + 8 * int x + int c)
                                     ((4 * w) * (2 * y + 1) + 8 * int x + int c)])"
    if "x \<in> set [0 ..< nat rw]" "c \<in> set [0 ..< 4]" for x c acc
  proof -
    have x: "int x + 1 \<le> rw" and c: "int c < 4" using that by auto
    have "shrink_channel mem ((4 * w) * (2 * y) + 8 * int x + int c)
                                     ((4 * w) * (2 * y + 1) + 8 * int x + int c)
        = Inr (shrink_value mem ((4 * w) * (2 * y) + 8 * int x + int c)
                                     ((4 * w) * (2 * y + 1) + 8 * int x + int c))"
      using w y rw wy x c mem
      by (intro shrink_channel_Inr) (simp_all add: algebra_simps)
    then show ?thesis by simp
  qed
  have pixel: "for_each [0 ..< 4] (\<lambda>channel out.
             seq (shrink_channel mem ((4 * w) * (2 * y) + 8 * int x + int channel)
                                     ((4 * w) * (2 * y + 1) + 8 * int x + int channel))
                 (\<lambda>v. Inr (out @ [v]))) acc
              = Inr (acc @ shrink_pixel_bytes mem w y x)"
    if "x \<in> set [0 ..< nat rw]" for x acc
    using for_each_collect[where body = "\<lambda>channel out.
             seq (shrink_channel mem ((4 * w) * (2 * y) + 8 * int x + int channel)
                                     ((4 * w) * (2 * y + 1) + 8 * int x + int channel))
                 (\<lambda>v. Inr (out @ [v]))"
        and g = "\<lambda>c. [shrink_value mem ((4 * w) * (2 * y) + 8 * int x + int c)
                                     ((4 * w) * (2 * y + 1) + 8 * int x + int c)]"
        and xs = "[0 ..< 4]" and out = acc, OF chan[OF that]]
    by (simp add: shrink_pixel_bytes_def)
  have "for_each [0 ..< nat rw] (\<lambda>x. for_each [0 ..< 4] (\<lambda>channel out.
             seq (shrink_channel mem ((4 * w) * (2 * y) + 8 * int x + int channel)
                                     ((4 * w) * (2 * y + 1) + 8 * int x + int channel))
                 (\<lambda>v. Inr (out @ [v])))) out
        = Inr (out @ concat (map (shrink_pixel_bytes mem w y) [0 ..< nat rw]))"
    by (rule for_each_collect) (rule pixel)
  then show ?thesis using ok rw by (simp add: shrink_row_def shrink_row_bytes_def)
qed

lemma shrink_rows_Inr:
  assumes w: "0 < w" and rw: "0 \<le> rw" "2 * rw \<le> w"
    and mem: "(4 * w) * (2 * int N) \<le> int (length mem)"
    and fits: "(4 * w) * (2 * int N) \<le> INT_MAX"
  shows "for_each [0 ..< N] (\<lambda>y. shrink_row mem w rw (int y)) []
       = Inr (concat (map (\<lambda>y. shrink_row_bytes mem w rw (int y)) [0 ..< N]))"
proof -
  have "shrink_row mem w rw (int y) out = Inr (out @ shrink_row_bytes mem w rw (int y))"
    if "y \<in> set [0 ..< N]" for y out
  proof -
    have "2 * int y + 2 \<le> 2 * int N" using that by simp
    then have le: "(4 * w) * (2 * int y + 2) \<le> (4 * w) * (2 * int N)"
      using w by (intro mult_left_mono) auto
    show ?thesis
      using w rw order_trans[OF le mem] order_trans[OF le fits]
      by (intro shrink_row_Inr) simp_all
  qed
  from for_each_collect[where body = "\<lambda>y. shrink_row mem w rw (int y)"
      and g = "\<lambda>y. shrink_row_bytes mem w rw (int y)" and xs = "[0 ..< N]"
      and out = "[]", OF this]
  show ?thesis by simp
qed

lemma length_shrink_pixel_bytes: "length (shrink_pixel_bytes mem w y x) = 4"
  by (simp add: shrink_pixel_bytes_def)

lemma nth_shrink_pixel_bytes:
  "c < 4 \<Longrightarrow> shrink_pixel_bytes mem w y x ! c =
     shrink_value mem ((4 * w) * (2 * y) + 8 * int x + int c)
                      ((4 * w) * (2 * y + 1) + 8 * int x + int c)"
  unfolding shrink_pixel_bytes_def by (subst nth_map) simp_all

lemma shrink_row_bytes_nth:
  "length (shrink_row_bytes mem w rw y) = nat rw * 4"
  "x < nat rw \<Longrightarrow> c < 4 \<Longrightarrow> shrink_row_bytes mem w rw y ! (x * 4 + c) =
     shrink_value mem ((4 * w) * (2 * y) + 8 * int x + int c)
                      ((4 * w) * (2 * y + 1) + 8 * int x + int c)"
  using concat_uniform[of "nat rw" "shrink_pixel_bytes mem w y" 4, OF length_shrink_pixel_bytes]
  by (simp_all add: shrink_row_bytes_def nth_shrink_pixel_bytes)

lemma shrink_rows_nth:
  "length (concat (map (\<lambda>y. shrink_row_bytes mem w rw (int y)) [0 ..< N])) = N * (nat rw * 4)"
  "y < N \<Longrightarrow> x < nat rw \<Longrightarrow> c < 4 \<Longrightarrow>
     concat (map (\<lambda>y. shrink_row_bytes mem w rw (int y)) [0 ..< N]) ! (y * (nat rw * 4) + (x * 4 + c))
     = shrink_value mem ((4 * w) * (2 * int y) + 8 * int x + int c)
                        ((4 * w) * (2 * int y + 1) + 8 * int x + int c)"
proof -
  note U = concat_uniform[of N "\<lambda>y. shrink_row_bytes mem w rw (int y)" "nat rw * 4",
      OF shrink_row_bytes_nth(1)]
  show "length (concat (map (\<lambda>y. shrink_row_bytes mem w rw (int y)) [0 ..< N])) = N * (nat rw * 4)"
    using U by simp
  assume a: "y < N" "x < nat rw" "c < 4"
  then have "x * 4 + c < nat rw * 4" by simp
  with U a(1) have "concat (map (\<lambda>y. shrink_row_bytes mem w rw (int y)) [0 ..< N])
      ! (y * (nat rw * 4) + (x * 4 + c)) = shrink_row_bytes mem w rw (int y) ! (x * 4 + c)"
    by blast
  then show "concat (map (\<lambda>y. shrink_row_bytes mem w rw (int y)) [0 ..< N]) ! (y * (nat rw * 4) + (x * 4 + c))
     = shrink_value mem ((4 * w) * (2 * int y) + 8 * int x + int c)
                        ((4 * w) * (2 * int y + 1) + 8 * int x + int c)"
    using shrink_row_bytes_nth(2)[OF a(2,3)] by simp
qed

lemma tdiv_nonneg: "0 \<le> a \<Longrightarrow> 0 < b \<Longrightarrow> tdiv a b = a div b"
  by (cases "a = 0") (simp_all add: tdiv_def)

lemma ShrinkToHalfSize_Inr:
  assumes "allocated b" and w2: "2 \<le> width b" and h2: "2 \<le> height b"
    and fits: "4 * width b * height b * frames b \<le> INT_MAX"
    and cap: "(width b div 2) * (height b div 2) * frames b \<le> int (capacity hp)"
  shows "ShrinkToHalfSize hp b =
           Inr (b\<lparr>width := width b div 2, height := height b div 2,
                  pixels := Some (pixels_of (concat (map
                    (\<lambda>y. shrink_row_bytes (bytes_of (storage b)) (width b) (width b div 2) (int y))
                    [0 ..< nat (height b div 2 * frames b)])))\<rparr>)"
proof -
  from assms(1) obtain ps where ps: "pixels b = Some ps" "storage b = ps"
    and pos: "0 < width b" "0 < height b" "0 < frames b"
    and len: "int (length ps) = width b * height b * frames b"
    by (rule allocatedE)
  define w h n rw rh where "w = width b" and "h = height b" and "n = frames b"
    and "rw = width b div 2" and "rh = height b div 2"
  note defs = w_def h_def n_def rw_def rh_def
  have half: "2 * rw \<le> w" "2 * rh \<le> h" "1 \<le> rw" "1 \<le> rh" "0 < n" "0 < w" "0 < h"
    using w2 h2 pos by (simp_all add: defs)
  have t: "tdiv (width b) 2 = rw" "tdiv (height b) 2 = rh"
    using pos by (simp_all add: tdiv_nonneg defs)
  \<comment> \<open>sizes\<close>
  have rhn: "2 * (rh * n) \<le> h * n"
    using mult_right_mono[OF half(2), of n] half(5) by (simp add: mult.assoc)
  have "w * (2 * (rh * n)) \<le> w * (h * n)"
    using rhn half(6) by (intro mult_left_mono) auto
  then have rows: "(4 * w) * (2 * (rh * n)) \<le> 4 * w * h * n"
    by (simp add: ac_simps)
  have whn: "0 < w * h * n" using half by simp
  have "rw * rh \<le> w * h" using half by (intro mult_mono) auto
  then have "rw * rh * n \<le> w * h * n" using half(5) by (intro mult_right_mono) auto
  then have small: "rw * rh * n \<le> INT_MAX" using fits whn by (simp add: defs)
  \<comment> \<open>the half-size buffer\<close>
  from Allocate_returns[of rw rh n hp] half small cap
  obtain result where res: "Allocate hp rw rh (ImageBuffer_new n) = Inr result"
    by (auto simp: defs)
  from Allocate_Inr_new[OF res] half
  have result: "result = \<lparr>width = rw, height = rh, frames = n,
               pixels = Some (map (garbage hp) [0 ..< nat (rw * rh * n)])\<rparr>"
    by simp
  have rhn0: "0 \<le> rh * n" using half by simp
  have "rh * n \<le> h * n" using rhn rhn0 by simp
  also have "h * n \<le> w * (h * n)" using half by simp
  finally have "rh * n \<le> INT_MAX" using fits whn by (simp add: defs mult.assoc)
  then have ok: "int_ok (rh * n)" using rhn0 by (simp add: int_ok_def INT_MIN_def)
  \<comment> \<open>the loops\<close>
  define out where "out = concat (map (\<lambda>y. shrink_row_bytes (bytes_of ps) w rw (int y))
      [0 ..< nat (rh * n)])"
  have lenw: "int (length (bytes_of ps)) = 4 * w * h * n"
    using len by (simp add: length_bytes_of defs)
  have fitsw: "4 * w * h * n \<le> INT_MAX"
    using fits by (simp add: defs)
  have N: "int (nat (rh * n)) = rh * n" using rhn0 by simp
  have m1: "(4 * w) * (2 * int (nat (rh * n))) \<le> int (length (bytes_of ps))"
    unfolding N lenw by (rule rows)
  have m2: "(4 * w) * (2 * int (nat (rh * n))) \<le> INT_MAX"
    unfolding N by (rule order_trans[OF rows fitsw])
  have rw0: "0 \<le> rw" using half by simp
  have "for_each [0 ..< nat (rh * n)] (\<lambda>y. shrink_row (bytes_of ps) w rw (int y)) [] = Inr out"
    unfolding out_def by (rule shrink_rows_Inr[OF half(6) rw0 half(1) m1 m2])
  moreover have lout: "length out = 4 * nat (rw * rh * n)"
  proof -
    have "length out = nat (rh * n) * (nat rw * 4)"
      unfolding out_def by (rule shrink_rows_nth(1))
    also have "\<dots> = nat ((rh * n) * (rw * 4))"
      using half rhn0 by (simp add: nat_mult_distrib)
    finally show ?thesis by (simp add: ac_simps nat_mult_distrib)
  qed
  ultimately show ?thesis
    using res result ok t ps
    by (simp add: ShrinkToHalfSize_def storage_def length_bytes_of out_def defs)
qed

lemma unat_shrink_value:
  "unat (shrink_value mem aIt bIt) =
     (unat (mem ! nat aIt) + unat (mem ! nat bIt) + unat (mem ! nat (aIt + 4))
        + unat (mem ! nat (bIt + 4)) + 2) div 4"
proof -
  have b: "unat (x :: u8) \<le> 255" for x
    using unsigned_less[of x, where 'a = nat] by simp
  have "unat (mem ! nat aIt) + unat (mem ! nat bIt) + unat (mem ! nat (aIt + 4))
        + unat (mem ! nat (bIt + 4)) + 2 \<le> 1022"
    using b[of "mem ! nat aIt"] b[of "mem ! nat bIt"] b[of "mem ! nat (aIt + 4)"]
      b[of "mem ! nat (bIt + 4)"] by linarith
  then have "(unat (mem ! nat aIt) + unat (mem ! nat bIt) + unat (mem ! nat (aIt + 4))
        + unat (mem ! nat (bIt + 4)) + 2) div 4 < 256"
    by simp
  then show ?thesis
    unfolding shrink_value_def by (simp add: unat_of_nat)
qed

text \<open>
  What the loops compute, for any height: output row \<open>y\<close> of frame \<open>frame\<close> is the
  row \<open>y + (height / 2) * frame\<close> of the output counted over all frames, and is averaged
  from the input rows twice that number and the next, counted over all frames.
\<close>

lemma ShrinkToHalfSize_channel_rows:
  assumes "allocated b" and w2: "2 \<le> width b" and h2: "2 \<le> height b"
    and fits: "4 * width b * height b * frames b \<le> INT_MAX"
    and cap: "(width b div 2) * (height b div 2) * frames b \<le> int (capacity hp)"
    and run: "ShrinkToHalfSize hp b = Inr b'"
    and x: "0 \<le> x" "x < width b div 2" and y: "0 \<le> y" "y < height b div 2"
    and f: "0 \<le> frame" "frame < frames b" and c: "c < 4"
  defines "aIt \<equiv> (4 * width b) * (2 * (y + height b div 2 * frame)) + 8 * x + int c"
    and "bIt \<equiv> (4 * width b) * (2 * (y + height b div 2 * frame) + 1) + 8 * x + int c"
  shows "channel_at b' x y frame c =
     (unat (bytes_of (storage b) ! nat aIt) + unat (bytes_of (storage b) ! nat bIt)
      + unat (bytes_of (storage b) ! nat (aIt + 4)) + unat (bytes_of (storage b) ! nat (bIt + 4))
      + 2) div 4"
proof -
  define w h n rw rh where "w = width b" and "h = height b" and "n = frames b"
    and "rw = width b div 2" and "rh = height b div 2"
  note defs = w_def h_def n_def rw_def rh_def
  define out where "out = concat (map
      (\<lambda>y. shrink_row_bytes (bytes_of (storage b)) w rw (int y)) [0 ..< nat (rh * n)])"
  have b': "b' = b\<lparr>width := rw, height := rh, pixels := Some (pixels_of out)\<rparr>"
    using ShrinkToHalfSize_Inr[OF assms(1-5)] run by (simp add: out_def defs)
  have pos: "0 < rw" "0 < rh" "0 < n" using x y f by (simp_all add: defs)
  have lout: "length out = nat (rh * n) * (nat rw * 4)"
    unfolding out_def by (rule shrink_rows_nth(1))
  then have "4 dvd length out" by simp
  then have bytes: "bytes_of (storage b') = out"
    by (simp add: b' storage_def bytes_of_pixels_of)
  \<comment> \<open>the row counted over all frames\<close>
  define Y where "Y = nat (y + rh * frame)"
  have "rh * frame \<le> rh * (n - 1)" using f pos by (intro mult_left_mono) (simp_all add: defs)
  then have "y + rh * frame < rh * n" using y by (simp add: algebra_simps defs)
  moreover have rf: "0 \<le> rh * frame" using f pos by simp
  ultimately have Y: "Y < nat (rh * n)" "int Y = y + rh * frame"
    using y by (simp_all add: Y_def)
  have X: "nat x < nat rw" "int (nat x) = x" using x by (simp_all add: defs)
  have "0 \<le> rw * (y + rh * frame)" using pos y rf by simp
  then have "pixel_index b' x y frame = Y * nat rw + nat x"
    using x y rf pos
    by (simp add: pixel_index_def b' Y_def nat_add_distrib nat_mult_distrib mult.commute)
  then have idx: "4 * pixel_index b' x y frame + c = Y * (nat rw * 4) + (nat x * 4 + c)"
    by (simp add: algebra_simps)
  have "out ! (Y * (nat rw * 4) + (nat x * 4 + c))
      = shrink_value (bytes_of (storage b)) ((4 * w) * (2 * int Y) + 8 * int (nat x) + int c)
                        ((4 * w) * (2 * int Y + 1) + 8 * int (nat x) + int c)"
    unfolding out_def by (rule shrink_rows_nth(2)[OF Y(1) X(1) c])
  then have "out ! (4 * pixel_index b' x y frame + c) = shrink_value (bytes_of (storage b)) aIt bIt"
    by (simp only: idx Y(2) X(2) aIt_def bIt_def defs)
  then show ?thesis
    by (simp only: channel_at_def bytes unat_shrink_value)
qed

lemma channel_at_offset:
  assumes "0 \<le> width b * (y + height b * frame) + x"
  shows "channel_at b x y frame c
       = unat (bytes_of (storage b) ! nat (4 * (width b * (y + height b * frame) + x) + int c))"
proof -
  define P where "P = width b * (y + height b * frame) + x"
  have "nat (4 * P + int c) = 4 * nat P + c" using assms unfolding P_def[symmetric] by linarith
  then show ?thesis by (simp only: channel_at_def pixel_index_def P_def)
qed

text \<open>
  C1, as the code has it: for every allocated buffer at least 2 wide and 2 high, whose
  size in bytes fits in \<open>int\<close> and whose half-size buffer the heap grants,
  \<open>ShrinkToHalfSize\<close> produces an allocated buffer of width/2 by height/2 with the same
  frame count; and when the height is even, or in frame 0, each channel of each output
  pixel \<open>(x, y, frame)\<close> is \<open>(a + b + c + d + 2) / 4\<close> for that channel's values at
  the input pixels \<open>(2x, 2y)\<close>, \<open>(2x+1, 2y)\<close>, \<open>(2x, 2y+1)\<close>, \<open>(2x+1, 2y+1)\<close> of the
  same frame.
\<close>

theorem ShrinkToHalfSize_box_filter:
  assumes "allocated b" and "2 \<le> width b" and "2 \<le> height b"
    and "4 * width b * height b * frames b \<le> INT_MAX"
    and "(width b div 2) * (height b div 2) * frames b \<le> int (capacity hp)"
  shows "\<exists>b'. ShrinkToHalfSize hp b = Inr b' \<and> allocated b'
           \<and> Width b' = Width b div 2 \<and> Height b' = Height b div 2 \<and> Frames b' = Frames b
           \<and> (\<forall>x y frame c.
                 0 \<le> x \<and> x < Width b' \<and> 0 \<le> y \<and> y < Height b'
                 \<and> 0 \<le> frame \<and> frame < Frames b' \<and> c < 4
                 \<and> (even (Height b) \<or> frame = 0) \<longrightarrow>
                 channel_at b' x y frame c =
                   (channel_at b (2 * x) (2 * y) frame c + channel_at b (2 * x + 1) (2 * y) frame c
                    + channel_at b (2 * x) (2 * y + 1) frame c
                    + channel_at b (2 * x + 1) (2 * y + 1) frame c + 2) div 4)"
proof -
  define w h n rw rh where "w = width b" and "h = height b" and "n = frames b"
    and "rw = width b div 2" and "rh = height b div 2"
  note defs = w_def h_def n_def rw_def rh_def
  define out where "out = concat (map
      (\<lambda>y. shrink_row_bytes (bytes_of (storage b)) w rw (int y)) [0 ..< nat (rh * n)])"
  define b' where "b' = b\<lparr>width := rw, height := rh, pixels := Some (pixels_of out)\<rparr>"
  have run: "ShrinkToHalfSize hp b = Inr b'"
    using ShrinkToHalfSize_Inr[OF assms] by (simp add: b'_def out_def defs)
  from assms(1) have n: "0 < n" by (auto simp: defs elim: allocatedE)
  have pos: "0 < rw" "0 < rh" "0 < w" "0 < h" using assms(2,3) by (simp_all add: defs)
  have "length out = nat (rh * n) * (nat rw * 4)"
    unfolding out_def by (rule shrink_rows_nth(1))
  then have "length (pixels_of out) = nat (rh * n) * nat rw"
    by (simp add: length_pixels_of)
  also have "int \<dots> = rw * rh * n" using pos n by simp
  finally have alloc: "allocated b'"
    using pos n by (simp add: allocated_def b'_def defs)
  have dims: "Width b' = Width b div 2" "Height b' = Height b div 2" "Frames b' = Frames b"
    by (simp_all add: b'_def Width_def Height_def Frames_def defs)
  have "channel_at b' x y frame c =
                   (channel_at b (2 * x) (2 * y) frame c + channel_at b (2 * x + 1) (2 * y) frame c
                    + channel_at b (2 * x) (2 * y + 1) frame c
                    + channel_at b (2 * x + 1) (2 * y + 1) frame c + 2) div 4"
    if x: "0 \<le> x" "x < Width b'" and y: "0 \<le> y" "y < Height b'"
      and f: "0 \<le> frame" "frame < Frames b'" and c: "c < 4"
      and par: "even (Height b) \<or> frame = 0"
    for x y frame c
  proof -
    have x': "x < width b div 2" and y': "y < height b div 2" and f': "frame < frames b"
      using x y f by (simp_all add: b'_def Width_def Height_def Frames_def defs)
    note G = ShrinkToHalfSize_channel_rows[OF assms run x(1) x' y(1) y' f(1) f' c]
    have "2 * (rh * frame) = h * frame"
      using par by (auto simp: Height_def defs)
    then have rowA: "2 * (y + rh * frame) = 2 * y + h * frame" by simp
    have hf: "0 \<le> h * frame" using pos f by simp
    have nn: "0 \<le> w * (2 * y + h * frame)" "0 \<le> w * (2 * y + 1 + h * frame)"
      using pos y hf by simp_all
    have A: "(4 * w) * (2 * (y + rh * frame)) + 8 * x + int c
        = 4 * (w * (2 * y + h * frame) + 2 * x) + int c"
      unfolding rowA by (simp add: algebra_simps)
    have B: "(4 * w) * (2 * (y + rh * frame) + 1) + 8 * x + int c
        = 4 * (w * (2 * y + 1 + h * frame) + 2 * x) + int c"
      unfolding rowA by (simp add: algebra_simps)
    have A4: "4 * (w * (2 * y + h * frame) + 2 * x) + int c + 4
        = 4 * (w * (2 * y + h * frame) + (2 * x + 1)) + int c"
      by (simp add: algebra_simps)
    have B4: "4 * (w * (2 * y + 1 + h * frame) + 2 * x) + int c + 4
        = 4 * (w * (2 * y + 1 + h * frame) + (2 * x + 1)) + int c"
      by (simp add: algebra_simps)
    define mem where "mem = bytes_of (storage b)"
    define va vb va4 vb4 where
      "va = unat (mem ! nat (4 * (w * (2 * y + h * frame) + 2 * x) + int c))"
      and "vb = unat (mem ! nat (4 * (w * (2 * y + 1 + h * frame) + 2 * x) + int c))"
      and "va4 = unat (mem ! nat (4 * (w * (2 * y + h * frame) + (2 * x + 1)) + int c))"
      and "vb4 = unat (mem ! nat (4 * (w * (2 * y + 1 + h * frame) + (2 * x + 1)) + int c))"
    have C: "channel_at b (2 * x) (2 * y) frame c = va"
      "channel_at b (2 * x + 1) (2 * y) frame c = va4"
      "channel_at b (2 * x) (2 * y + 1) frame c = vb"
      "channel_at b (2 * x + 1) (2 * y + 1) frame c = vb4"
      using nn x(1)
      by (simp_all add: channel_at_offset va_def vb_def va4_def vb4_def mem_def defs)
    have "channel_at b' x y frame c = (va + vb + va4 + vb4 + 2) div 4"
      using G unfolding va_def vb_def va4_def vb4_def mem_def
      by (simp only: A[unfolded defs] B[unfolded defs] A4[unfolded defs] B4[unfolded defs] defs)
    then show ?thesis unfolding C by (simp add: ac_simps)
  qed
  with run alloc dims show ?thesis by blast
qed

theorem ShrinkToHalfSize_box_filter_witness:
  "allocated example_quad \<and> 2 \<le> width example_quad \<and> 2 \<le> height example_quad
   \<and> 4 * width example_quad * height example_quad * frames example_quad \<le> INT_MAX
   \<and> (width example_quad div 2) * (height example_quad div 2) * frames example_quad
        \<le> int (capacity example_heap)
   \<and> ShrinkToHalfSize example_heap example_quad = Inr example_quad_half
   \<and> channel_at example_quad_half 0 0 0 0 = (4 + 8 + 12 + 17 + 2) div 4"
proof -
  have h: "allocated example_quad" "2 \<le> width example_quad" "2 \<le> height example_quad"
    "4 * width example_quad * height example_quad * frames example_quad \<le> INT_MAX"
    "(width example_quad div 2) * (height example_quad div 2) * frames example_quad
        \<le> int (capacity example_heap)"
    by (simp_all add: allocated_def example_quad_def INT_MAX_def example_heap_def)
  have run: "ShrinkToHalfSize example_heap example_quad = Inr example_quad_half"
    by code_simp
  have inp: "channel_at example_quad (2 * 0) (2 * 0) 0 0 = 4"
    "channel_at example_quad (2 * 0 + 1) (2 * 0) 0 0 = 8"
    "channel_at example_quad (2 * 0) (2 * 0 + 1) 0 0 = 12"
    "channel_at example_quad (2 * 0 + 1) (2 * 0 + 1) 0 0 = 17"
    by (simp_all add: channel_at_def pixel_index_def storage_def bytes_of_def example_quad_def)
  from ShrinkToHalfSize_box_filter[OF h]
  obtain b' where b': "ShrinkToHalfSize example_heap example_quad = Inr b'"
    and avg: "\<And>x y frame c. 0 \<le> x \<and> x < Width b' \<and> 0 \<le> y \<and> y < Height b'
                 \<and> 0 \<le> frame \<and> frame < Frames b' \<and> c < 4
                 \<and> (even (Height example_quad) \<or> frame = 0) \<Longrightarrow>
                 channel_at b' x y frame c =
                   (channel_at example_quad (2 * x) (2 * y) frame c
                    + channel_at example_quad (2 * x + 1) (2 * y) frame c
                    + channel_at example_quad (2 * x) (2 * y + 1) frame c
                    + channel_at example_quad (2 * x + 1) (2 * y + 1) frame c + 2) div 4"
    by blast
  from b' run have eq: "b' = example_quad_half" by simp
  have "channel_at example_quad_half 0 0 0 0 = (4 + 8 + 12 + 17 + 2) div 4"
    using avg[of 0 0 0 0] unfolding eq inp
    by (simp add: Width_def Height_def Frames_def example_quad_half_def)
  with h run show ?thesis by simp
qed

text \<open>
  The claim C1 as stated fails. The allocated buffer of width 1 and height 4 becomes a
  buffer of height 0, not 4 / 2. And in the buffer of width 2, height 3 and two frames,
  whose only pixels that are not 0 are the last row of frame 0, the output pixel of frame
  1 has channel value 128, while the four input pixels of frame 1 it stands for are 0.
\<close>

theorem ShrinkToHalfSize_counterexample:
  "allocated example_1x4
   \<and> ShrinkToHalfSize example_heap example_1x4
        = Inr \<lparr>width = 0, height = 0, frames = 1, pixels = None\<rparr>
   \<and> Height example_1x4 div 2 = 2
   \<and> allocated example_odd
   \<and> ShrinkToHalfSize example_heap example_odd = Inr example_odd_half
   \<and> channel_at example_odd_half 0 0 1 0 = 128
   \<and> (channel_at example_odd 0 0 1 0 + channel_at example_odd 1 0 1 0
       + channel_at example_odd 0 1 1 0 + channel_at example_odd 1 1 1 0 + 2) div 4 = 0"
proof -
  have "ShrinkToHalfSize example_heap example_1x4
        = Inr \<lparr>width = 0, height = 0, frames = 1, pixels = None\<rparr>"
    by code_simp
  moreover have "ShrinkToHalfSize example_heap example_odd = Inr example_odd_half"
    by code_simp
  moreover have "allocated example_1x4" "allocated example_odd" "Height example_1x4 div 2 = 2"
    by (simp_all add: allocated_def example_1x4_def example_odd_def Height_def)
  moreover have "channel_at example_odd_half 0 0 1 0 = 128"
    by (simp add: channel_at_def pixel_index_def storage_def bytes_of_def example_odd_half_def)
  moreover have "channel_at example_odd 0 0 1 0 = 0" "channel_at example_odd 1 0 1 0 = 0"
    "channel_at example_odd 0 1 1 0 = 0" "channel_at example_odd 1 1 1 0 = 0"
    by (simp_all add: channel_at_def pixel_index_def storage_def bytes_of_def example_odd_def)
  ultimately show ?thesis by simp
qed

end
